theory Spec2Isabelle
  imports Main "HOL-Library.Word" "HOL-Library.Multiset"
begin

unbundle bit_operations_syntax

section \<open>The count-min sketch of \<open>src/primer/count_min_sketch.cpp\<close>\<close>

subsection \<open>Data model\<close>

text \<open>
  \<open>uint32_t\<close> is a 32-bit word, \<open>size_t\<close> a 64-bit word. The class
  \<open>CountMinSketch<KeyType>\<close> becomes a record of its fields; the field \<open>cms_width\<close>
  stands for the member \<open>width_\<close>, and so on for the others. A member of
  \<open>hash_functions_\<close> is the closure built by \<open>HashFunction(seed)\<close>; it captures the
  seed and \<open>this\<close>, and reads \<open>width_\<close> of the owning object when it is called. The record
  therefore stores the captured seed of every closure, and a call passes the owner's current
  \<open>width_\<close>. The mutexes of \<open>row_locks_\<close> carry no data; the vector always has
  \<open>depth_\<close> entries (constructor and both move operations size it so), and the model is the
  sequential behaviour of the methods.
\<close>

type_synonym u16 = "16 word"
type_synonym u32 = "32 word"
type_synonym u64 = "64 word"

record sketch =
  cms_width :: u32
  cms_depth :: u32
  cms_counts :: "u32 list list"
  cms_hash_functions :: "u64 list"

text \<open>
  The failures of the methods: the \<open>std::invalid_argument\<close> that \<open>Merge\<close> throws, and
  the two undefined behaviours the code can run into, an index past the end of a vector and
  a remainder by zero.
\<close>

datatype error = InvalidArgument | OutOfRange | DivByZero

text \<open>
  \<open>std::hash<KeyType>\<close> and \<open>HashUtil::CombineHashes\<close> come from headers outside the
  two source files; they are parameters of the model.
\<close>

record 'k hash_util =
  std_hash :: "'k \<Rightarrow> u64"
  CombineHashes :: "u64 \<Rightarrow> u64 \<Rightarrow> u64"

definition SEED_BASE :: u64 where
  "SEED_BASE = 15445"

subsection \<open>Construction and move\<close>

definition CountMinSketch :: "u32 \<Rightarrow> u32 \<Rightarrow> sketch" where
  "CountMinSketch width depth =
     \<lparr> cms_width = width, cms_depth = depth,
       cms_counts = replicate (unat depth) (replicate (unat width) 0),
       cms_hash_functions = map of_nat [0..<unat depth] \<rparr>"

text \<open>
  The move constructor returns the new object and the state the source object is left in.
  It initialises \<open>width_\<close>, \<open>depth_\<close> and \<open>counts_\<close> only: \<open>hash_functions_\<close> of the new
  object is default-constructed, that is empty, and the one of the source is not touched.
\<close>

definition move_construct :: "sketch \<Rightarrow> sketch \<times> sketch" where
  "move_construct other =
     (\<lparr> cms_width = cms_width other, cms_depth = cms_depth other,
        cms_counts = cms_counts other, cms_hash_functions = [] \<rparr>,
      other\<lparr> cms_width := 0, cms_depth := 0, cms_counts := [] \<rparr>)"

subsection \<open>Hashing and cell access\<close>

definition HashFunction :: "'k hash_util \<Rightarrow> u64 \<Rightarrow> u32 \<Rightarrow> 'k \<Rightarrow> error + u64" where
  "HashFunction H seed width item =
     (let h1 = std_hash H item;
          h2 = CombineHashes H seed SEED_BASE
      in if width = 0 then Inl DivByZero
         else Inr (CombineHashes H h1 h2 mod ucast width))"

text \<open>\<open>hash_functions_[r](item)\<close>: the vector is indexed first, then the closure runs.\<close>

definition hash_call :: "'k hash_util \<Rightarrow> sketch \<Rightarrow> nat \<Rightarrow> 'k \<Rightarrow> error + u64" where
  "hash_call H s r item =
     (if r < length (cms_hash_functions s)
      then HashFunction H (cms_hash_functions s ! r) (cms_width s) item
      else Inl OutOfRange)"

text \<open>\<open>counts_[r][col]\<close> as a read.\<close>

definition cell_at :: "sketch \<Rightarrow> nat \<Rightarrow> nat \<Rightarrow> error + u32" where
  "cell_at s r c =
     (if r < length (cms_counts s) \<and> c < length (cms_counts s ! r)
      then Inr (cms_counts s ! r ! c) else Inl OutOfRange)"

text \<open>\<open>counts_[r][c] += v\<close>; the increment \<open>counts_[r][col]++\<close> is the case \<open>v = 1\<close>.\<close>

definition add_cell :: "sketch \<Rightarrow> nat \<Rightarrow> nat \<Rightarrow> u32 \<Rightarrow> error + sketch" where
  "add_cell s r c v =
     (if r < length (cms_counts s) \<and> c < length (cms_counts s ! r)
      then Inr (s\<lparr> cms_counts :=
                  (cms_counts s)[r := (cms_counts s ! r)[c := cms_counts s ! r ! c + v]] \<rparr>)
      else Inl OutOfRange)"

subsection \<open>Insert, Count, Clear, Merge\<close>

text \<open>
  A method that mutates the object returns the error raised, if any, together with the
  state of the object when the method ends or fails. The loop \<open>for r in 0..depth_\<close> is a
  recursion over the list of row indices.
\<close>

fun Insert_rows :: "'k hash_util \<Rightarrow> 'k \<Rightarrow> nat list \<Rightarrow> sketch \<Rightarrow> error option \<times> sketch" where
  "Insert_rows H item [] s = (None, s)"
| "Insert_rows H item (r # rs) s =
     (case hash_call H s r item of
        Inl e \<Rightarrow> (Some e, s)
      | Inr col \<Rightarrow>
          (case add_cell s r (unat col) 1 of
             Inl e \<Rightarrow> (Some e, s)
           | Inr s' \<Rightarrow> Insert_rows H item rs s'))"

definition Insert :: "'k hash_util \<Rightarrow> sketch \<Rightarrow> 'k \<Rightarrow> error option \<times> sketch" where
  "Insert H s item = Insert_rows H item [0..<unat (cms_depth s)] s"

text \<open>
  \<open>Count\<close> is a const method and returns a value or fails. Its running minimum starts
  at \<open>std::numeric_limits<uint32_t>::max()\<close>, the word \<open>- 1\<close>, that is \<open>2^32 - 1\<close>.
\<close>

fun Count_rows :: "'k hash_util \<Rightarrow> sketch \<Rightarrow> 'k \<Rightarrow> nat list \<Rightarrow> u32 \<Rightarrow> error + u32" where
  "Count_rows H s item [] min_count = Inr min_count"
| "Count_rows H s item (r # rs) min_count =
     (case hash_call H s r item of
        Inl e \<Rightarrow> Inl e
      | Inr col \<Rightarrow>
          (case cell_at s r (unat col) of
             Inl e \<Rightarrow> Inl e
           | Inr v \<Rightarrow> Count_rows H s item rs (min min_count v)))"

definition Count :: "'k hash_util \<Rightarrow> sketch \<Rightarrow> 'k \<Rightarrow> error + u32" where
  "Count H s item =
     (case Count_rows H s item [0..<unat (cms_depth s)] (- 1) of
        Inl e \<Rightarrow> Inl e
      | Inr min_count \<Rightarrow> Inr (if min_count = - 1 then 0 else min_count))"

text \<open>\<open>std::fill\<close> writes 0 to every counter of the row.\<close>

fun Clear_rows :: "nat list \<Rightarrow> sketch \<Rightarrow> error option \<times> sketch" where
  "Clear_rows [] s = (None, s)"
| "Clear_rows (r # rs) s =
     (if r < length (cms_counts s)
      then Clear_rows rs (s\<lparr> cms_counts := (cms_counts s)[r := map (\<lambda>_. 0) (cms_counts s ! r)] \<rparr>)
      else (Some OutOfRange, s))"

definition Clear :: "sketch \<Rightarrow> error option \<times> sketch" where
  "Clear s = Clear_rows [0..<unat (cms_depth s)] s"

text \<open>
  \<open>Merge\<close> throws before any write when the dimensions differ. Otherwise the inner loop
  runs over the columns \<open>0..width_\<close> of a row and the outer loop over the rows; only the
  receiver is written.
\<close>

fun Merge_cols :: "sketch \<Rightarrow> nat \<Rightarrow> nat list \<Rightarrow> sketch \<Rightarrow> error option \<times> sketch" where
  "Merge_cols other r [] s = (None, s)"
| "Merge_cols other r (c # cs) s =
     (case cell_at other r c of
        Inl e \<Rightarrow> (Some e, s)
      | Inr v \<Rightarrow>
          (case add_cell s r c v of
             Inl e \<Rightarrow> (Some e, s)
           | Inr s' \<Rightarrow> Merge_cols other r cs s'))"

fun Merge_rows :: "sketch \<Rightarrow> nat list \<Rightarrow> sketch \<Rightarrow> error option \<times> sketch" where
  "Merge_rows other [] s = (None, s)"
| "Merge_rows other (r # rs) s =
     (case Merge_cols other r [0..<unat (cms_width s)] s of
        (Some e, s') \<Rightarrow> (Some e, s')
      | (None, s') \<Rightarrow> Merge_rows other rs s')"

definition Merge :: "sketch \<Rightarrow> sketch \<Rightarrow> error option \<times> sketch" where
  "Merge s other =
     (if cms_width s \<noteq> cms_width other \<or> cms_depth s \<noteq> cms_depth other
      then (Some InvalidArgument, s)
      else Merge_rows other [0..<unat (cms_depth s)] s)"

subsection \<open>TopK\<close>

text \<open>
  The first loop of \<open>TopK\<close> appends \<open>(item, Count(item))\<close> to \<open>all\<close> for every
  candidate, in order.
\<close>

fun TopK_collect ::
  "'k hash_util \<Rightarrow> sketch \<Rightarrow> 'k list \<Rightarrow> ('k \<times> u32) list \<Rightarrow> error + ('k \<times> u32) list" where
  "TopK_collect H s [] all = Inr all"
| "TopK_collect H s (item # items) all =
     (case Count H s item of
        Inl e \<Rightarrow> Inl e
      | Inr c \<Rightarrow> TopK_collect H s items (all @ [(item, c)]))"

text \<open>The comparator of all three library calls: \<open>a.second > b.second\<close>.\<close>

definition by_count_desc :: "'k \<times> u32 \<Rightarrow> 'k \<times> u32 \<Rightarrow> bool" where
  "by_count_desc a b \<longleftrightarrow> snd a > snd b"

text \<open>
  \<open>std::sort\<close> and \<open>std::nth_element\<close> are library algorithms whose output is fixed by
  the C++ standard only up to the order of equivalent elements. They are modelled by their
  contracts, as relations between the range before and after the call. \<open>std::sort\<close>
  permutes the range so that no element is followed by one that the comparator puts
  before it. \<open>std::nth_element\<close> permutes the range so that the element at position
  \<open>n\<close> is the one a full sort would put there: nothing at or after \<open>n\<close> comes before
  anything in front of \<open>n\<close>, nor before the element at \<open>n\<close> itself.
\<close>

definition std_sort :: "('a \<Rightarrow> 'a \<Rightarrow> bool) \<Rightarrow> 'a list \<Rightarrow> 'a list \<Rightarrow> bool" where
  "std_sort cmp xs ys \<longleftrightarrow>
     mset ys = mset xs \<and> sorted_wrt (\<lambda>a b. \<not> cmp b a) ys"

definition std_nth_element ::
  "('a \<Rightarrow> 'a \<Rightarrow> bool) \<Rightarrow> nat \<Rightarrow> 'a list \<Rightarrow> 'a list \<Rightarrow> bool" where
  "std_nth_element cmp n xs ys \<longleftrightarrow>
     mset ys = mset xs \<and>
     (\<forall>a \<in> set (take n ys). \<forall>b \<in> set (drop n ys). \<not> cmp b a) \<and>
     (\<forall>b \<in> set (drop n ys). \<not> cmp b (ys ! n))"

text \<open>
  \<open>TopK\<close> relates the sketch, \<open>k\<close> and the candidates to every result the standard
  allows. In the branch \<open>k >= all.size()\<close> the whole vector is sorted and returned;
  otherwise \<open>nth_element\<close> partitions it at position \<open>k\<close>, and the first \<open>k\<close>
  entries are copied, sorted and returned. A failing \<open>Count\<close> ends the call.
\<close>

inductive TopK ::
  "'k hash_util \<Rightarrow> sketch \<Rightarrow> u16 \<Rightarrow> 'k list \<Rightarrow> error + ('k \<times> u32) list \<Rightarrow> bool"
  for H :: "'k hash_util" and s :: sketch and k :: u16 and candidates :: "'k list" where
  TopK_fail:
    "TopK_collect H s candidates [] = Inl e \<Longrightarrow> TopK H s k candidates (Inl e)"
| TopK_sort_all:
    "TopK_collect H s candidates [] = Inr all \<Longrightarrow> unat k \<ge> length all \<Longrightarrow>
     std_sort by_count_desc all res \<Longrightarrow> TopK H s k candidates (Inr res)"
| TopK_select:
    "TopK_collect H s candidates [] = Inr all \<Longrightarrow> \<not> unat k \<ge> length all \<Longrightarrow>
     std_nth_element by_count_desc (unat k) all mid \<Longrightarrow>
     std_sort by_count_desc (take (unat k) mid) res \<Longrightarrow> TopK H s k candidates (Inr res)"

subsection \<open>Sequences of calls\<close>

text \<open>
  A client that calls \<open>Insert\<close> once for every key of a list, in order, and stops at
  the first failure.
\<close>

fun Insert_all :: "'k hash_util \<Rightarrow> sketch \<Rightarrow> 'k list \<Rightarrow> error option \<times> sketch" where
  "Insert_all H s [] = (None, s)"
| "Insert_all H s (item # items) =
     (case Insert H s item of
        (Some e, s') \<Rightarrow> (Some e, s')
      | (None, s') \<Rightarrow> Insert_all H s' items)"

text \<open>
  An instance of the two hashing parameters, for running the model on concrete inputs:
  keys are 64-bit integers hashed by the identity, and two hashes are combined by
  exclusive or.
\<close>

definition xor_hash :: "u64 hash_util" where
  "xor_hash = \<lparr> std_hash = (\<lambda>k. k), CombineHashes = (\<lambda>a b. a XOR b) \<rparr>"

section \<open>Notions used in the statements\<close>

subsection \<open>Well-formed sketches\<close>

text \<open>
  \<open>cell s r c\<close> is the counter in row \<open>r\<close> and column \<open>c\<close>, for indices within the
  matrix. \<open>shape\<close>: the counter matrix has \<open>depth_\<close> rows of \<open>width_\<close> counters.
  \<open>valid\<close>: in addition the hash family is the one the constructor builds for \<open>depth_\<close>,
  and a sketch with rows has columns. These are the states that the constructor produces
  when \<open>width > 0\<close> or \<open>depth = 0\<close>, and \<open>Insert\<close>, \<open>Clear\<close> and \<open>Merge\<close> keep a
  state \<open>valid\<close>. \<open>same_dims\<close>: two states agree on everything but the values of the
  counters.
\<close>

definition cell :: "sketch \<Rightarrow> nat \<Rightarrow> nat \<Rightarrow> u32" where
  "cell s r c = cms_counts s ! r ! c"

definition shape :: "sketch \<Rightarrow> bool" where
  "shape s \<longleftrightarrow>
     length (cms_counts s) = unat (cms_depth s) \<and>
     (\<forall>r < unat (cms_depth s). length (cms_counts s ! r) = unat (cms_width s))"

definition valid :: "sketch \<Rightarrow> bool" where
  "valid s \<longleftrightarrow>
     shape s \<and>
     cms_hash_functions s = map of_nat [0..<unat (cms_depth s)] \<and>
     (cms_depth s \<noteq> 0 \<longrightarrow> cms_width s \<noteq> 0)"

definition same_dims :: "sketch \<Rightarrow> sketch \<Rightarrow> bool" where
  "same_dims s s' \<longleftrightarrow>
     cms_width s' = cms_width s \<and> cms_depth s' = cms_depth s \<and>
     cms_hash_functions s' = cms_hash_functions s \<and>
     length (cms_counts s') = length (cms_counts s) \<and>
     map length (cms_counts s') = map length (cms_counts s)"

subsection \<open>The counters a key selects\<close>

text \<open>
  \<open>column H width r item\<close> is what the closure of row \<open>r\<close> of a constructed sketch
  returns for a key: the seed of row \<open>r\<close> is \<open>r\<close>. \<open>selected H s item r\<close> is the counter
  of row \<open>r\<close> at that column. \<open>min_selected\<close> is the value of \<open>min_count\<close> when the loop
  of \<open>Count\<close> ends: the least of \<open>2^32 - 1\<close> and the selected counters of all rows.
  \<open>min_cell\<close> is the least of the selected counters alone, for a sketch that has a row.
  \<open>estimate\<close> is the value that \<open>Count\<close> returns on a well-formed sketch.
\<close>

definition column :: "'k hash_util \<Rightarrow> u32 \<Rightarrow> nat \<Rightarrow> 'k \<Rightarrow> u64" where
  "column H width r item =
     CombineHashes H (std_hash H item) (CombineHashes H (of_nat r) SEED_BASE) mod ucast width"

definition selected :: "'k hash_util \<Rightarrow> sketch \<Rightarrow> 'k \<Rightarrow> nat \<Rightarrow> u32" where
  "selected H s item r = cell s r (unat (column H (cms_width s) r item))"

definition min_selected :: "'k hash_util \<Rightarrow> sketch \<Rightarrow> 'k \<Rightarrow> u32" where
  "min_selected H s item = Min (insert (- 1) (selected H s item ` {..<unat (cms_depth s)}))"

definition min_cell :: "'k hash_util \<Rightarrow> sketch \<Rightarrow> 'k \<Rightarrow> u32" where
  "min_cell H s item = Min (selected H s item ` {..<unat (cms_depth s)})"

definition estimate :: "'k hash_util \<Rightarrow> sketch \<Rightarrow> 'k \<Rightarrow> u32" where
  "estimate H s item =
     (if min_selected H s item = - 1 then 0 else min_selected H s item)"

subsection \<open>Abbreviations of the proofs\<close>

text \<open>
  \<open>upd_cell\<close> is the state after a write within the matrix. \<open>unit_sketch c\<close> is the
  sketch of width 1 and depth 1 whose only counter holds \<open>c\<close>; the constructor called
  with \<open>(1, 1)\<close> gives \<open>unit_sketch 0\<close>.
\<close>

definition upd_cell :: "sketch \<Rightarrow> nat \<Rightarrow> nat \<Rightarrow> u32 \<Rightarrow> sketch" where
  "upd_cell s r c v =
     s\<lparr> cms_counts :=
          (cms_counts s)[r := (cms_counts s ! r)[c := cms_counts s ! r ! c + v]] \<rparr>"

definition unit_sketch :: "u32 \<Rightarrow> sketch" where
  "unit_sketch c =
     \<lparr> cms_width = 1, cms_depth = 1, cms_counts = [[c]], cms_hash_functions = [0] \<rparr>"

section \<open>Properties of the operations\<close>

subsection \<open>Dimensions and hashing\<close>

lemma same_dims_refl: "same_dims s s"
  by (simp add: same_dims_def)

lemma same_dims_trans: "same_dims s t \<Longrightarrow> same_dims t u \<Longrightarrow> same_dims s u"
  by (simp add: same_dims_def)

lemma same_dims_shape: "same_dims s s' \<Longrightarrow> shape s \<Longrightarrow> shape s'"
  unfolding same_dims_def shape_def
  by (metis length_map nth_map)

lemma same_dims_valid:
  assumes "same_dims s s'" "valid s"
  shows "valid s'"
proof -
  have "shape s'"
    using assms same_dims_shape by (simp add: valid_def)
  then show ?thesis
    using assms by (simp add: valid_def same_dims_def)
qed

lemma column_less: "width \<noteq> 0 \<Longrightarrow> unat (column H width r item) < unat width"
proof -
  assume w: "width \<noteq> 0"
  have "unat width < 2 ^ 32"
    using unsigned_less [of width] by simp
  then have "unat width < 2 ^ 64"
    by simp
  then have u: "unat (ucast width :: u64) = unat width"
    by (simp add: unsigned_ucast_eq take_bit_nat_eq_self)
  have "unat width \<noteq> 0" using w by (simp add: unat_eq_0)
  then show ?thesis
    by (simp add: column_def unat_mod u)
qed

lemma hash_call_valid:
  assumes "valid s" "r < unat (cms_depth s)"
  shows "hash_call H s r item = Inr (column H (cms_width s) r item)"
proof -
  have "cms_depth s \<noteq> 0" using assms(2) by auto
  then have "cms_width s \<noteq> 0" using assms(1) by (simp add: valid_def)
  moreover have "r < length (cms_hash_functions s)" "cms_hash_functions s ! r = of_nat r"
    using assms by (simp_all add: valid_def)
  ultimately show ?thesis
    by (simp add: hash_call_def HashFunction_def column_def)
qed

subsection \<open>Writing a counter\<close>

lemma add_cell_Inr:
  "r < length (cms_counts s) \<Longrightarrow> c < length (cms_counts s ! r) \<Longrightarrow>
   add_cell s r c v = Inr (upd_cell s r c v)"
  by (simp add: add_cell_def upd_cell_def)

lemma same_dims_upd_cell:
  "r < length (cms_counts s) \<Longrightarrow> same_dims s (upd_cell s r c v)"
  by (simp add: same_dims_def upd_cell_def map_update list_update_same_conv)

lemma cell_upd_cell:
  "r' < length (cms_counts s) \<Longrightarrow> c' < length (cms_counts s ! r') \<Longrightarrow>
   cell (upd_cell s r c v) r' c' = cell s r' c' + (if r' = r \<and> c' = c then v else 0)"
  by (cases "r' = r") (simp_all add: cell_def upd_cell_def nth_list_update)

subsection \<open>Insert\<close>

text \<open>
  On a well-formed sketch \<open>Insert\<close> succeeds, keeps the sketch well-formed, and adds 1
  to the counter that each row selects for the key.
\<close>

lemma Insert_rows_valid:
  assumes "valid s" "\<forall>r\<in>set rs. r < unat (cms_depth s)" "distinct rs"
  shows "fst (Insert_rows H item rs s) = None \<and>
         same_dims s (snd (Insert_rows H item rs s)) \<and>
         (\<forall>r c. r < unat (cms_depth s) \<longrightarrow> c < unat (cms_width s) \<longrightarrow>
           cell (snd (Insert_rows H item rs s)) r c = cell s r c +
             (if r \<in> set rs \<and> c = unat (column H (cms_width s) r item) then 1 else 0))"
  using assms
proof (induction rs arbitrary: s)
  case Nil
  show ?case by (simp add: same_dims_refl)
next
  case (Cons r rs)
  let ?w = "cms_width s" and ?d = "cms_depth s"
  let ?col = "column H ?w r item"
  let ?s1 = "upd_cell s r (unat ?col) 1"
  have vs: "valid s" and bs: "\<forall>r\<in>set (r # rs). r < unat ?d"
    and ds: "distinct (r # rs)"
    using Cons.prems by blast+
  have r: "r < unat ?d" and nin: "r \<notin> set rs" and dist: "distinct rs"
    using bs ds by simp_all
  have sh: "shape s" using vs by (simp add: valid_def)
  have w0: "?w \<noteq> 0" using r vs by (auto simp: valid_def)
  have col: "hash_call H s r item = Inr ?col"
    by (rule hash_call_valid [OF vs r])
  have cb: "unat ?col < unat ?w"
    by (rule column_less [OF w0])
  have rl: "r < length (cms_counts s)" and cl: "unat ?col < length (cms_counts s ! r)"
    using sh r cb by (simp_all add: shape_def)
  have s1: "add_cell s r (unat ?col) 1 = Inr ?s1"
    by (rule add_cell_Inr [OF rl cl])
  have sd1: "same_dims s ?s1"
    by (rule same_dims_upd_cell [OF rl])
  have v1: "valid ?s1" using same_dims_valid [OF sd1 vs] .
  have d1: "cms_depth ?s1 = ?d" "cms_width ?s1 = ?w"
    using sd1 by (simp_all add: same_dims_def)
  have b1: "\<forall>r\<in>set rs. r < unat (cms_depth ?s1)"
    using bs d1 by simp
  have step: "Insert_rows H item (r # rs) s = Insert_rows H item rs ?s1"
    using col s1 by simp
  note ih0 = Cons.IH [OF v1 b1 dist, unfolded d1]
  note ih = conjunct1 [OF ih0] conjunct1 [OF conjunct2 [OF ih0]] conjunct2 [OF conjunct2 [OF ih0]]
  have A: "fst (Insert_rows H item (r # rs) s) = None"
    using ih(1) step by simp
  have B: "same_dims s (snd (Insert_rows H item (r # rs) s))"
    using same_dims_trans [OF sd1 ih(2)] step by simp
  have C: "\<forall>r' c'. r' < unat ?d \<longrightarrow> c' < unat ?w \<longrightarrow>
         cell (snd (Insert_rows H item (r # rs) s)) r' c' = cell s r' c' +
           (if r' \<in> set (r # rs) \<and> c' = unat (column H ?w r' item) then 1 else 0)"
  proof (intro allI impI)
    fix r' c' assume that: "r' < unat ?d" "c' < unat ?w"
    have "r' < length (cms_counts s)" "c' < length (cms_counts s ! r')"
      using sh that by (simp_all add: shape_def)
    from cell_upd_cell [OF this, of r "unat ?col" 1] ih(3) that nin
    show "cell (snd (Insert_rows H item (r # rs) s)) r' c' = cell s r' c' +
           (if r' \<in> set (r # rs) \<and> c' = unat (column H ?w r' item) then 1 else 0)"
      unfolding step by auto
  qed
  show ?case using A B C by (intro conjI)
qed

lemma Insert_valid:
  assumes "valid s"
  shows "fst (Insert H s item) = None \<and>
         valid (snd (Insert H s item)) \<and>
         same_dims s (snd (Insert H s item)) \<and>
         (\<forall>r c. r < unat (cms_depth s) \<longrightarrow> c < unat (cms_width s) \<longrightarrow>
           cell (snd (Insert H s item)) r c = cell s r c +
             (if c = unat (column H (cms_width s) r item) then 1 else 0))"
proof -
  have b: "\<forall>r\<in>set [0..<unat (cms_depth s)]. r < unat (cms_depth s)" by simp
  have d: "distinct [0..<unat (cms_depth s)]" by simp
  note ir = Insert_rows_valid [OF assms b d, of H item, folded Insert_def]
  have "valid (snd (Insert H s item))"
    using same_dims_valid [OF _ assms, of "snd (Insert H s item)"] ir by simp
  then show ?thesis
    using ir by simp
qed

lemma Insert_all_valid:
  assumes "valid s"
  shows "fst (Insert_all H s items) = None \<and>
         valid (snd (Insert_all H s items)) \<and>
         same_dims s (snd (Insert_all H s items)) \<and>
         (\<forall>r c. r < unat (cms_depth s) \<longrightarrow> c < unat (cms_width s) \<longrightarrow>
           cell (snd (Insert_all H s items)) r c = cell s r c +
             of_nat (length (filter (\<lambda>y. unat (column H (cms_width s) r y) = c) items)))"
  using assms
proof (induction items arbitrary: s)
  case Nil
  then show ?case by (simp add: same_dims_refl)
next
  case (Cons x xs)
  define s1 where "s1 = snd (Insert H s x)"
  note i1 = Insert_valid [OF Cons.prems, of H x, folded s1_def]
  have f1: "Insert H s x = (None, s1)"
    using i1 by (simp add: prod_eq_iff s1_def)
  have v1: "valid s1" and sd1: "same_dims s s1"
    using i1 by simp_all
  have d1: "cms_depth s1 = cms_depth s" "cms_width s1 = cms_width s"
    using sd1 by (simp_all add: same_dims_def)
  have step: "Insert_all H s (x # xs) = Insert_all H s1 xs"
    by (simp add: f1)
  note ih = Cons.IH [OF v1, unfolded d1]
  have ih1: "fst (Insert_all H s1 xs) = None" using ih by (rule conjunct1)
  have ih2: "valid (snd (Insert_all H s1 xs))"
    using ih by (elim conjE)
  have ih3: "same_dims s1 (snd (Insert_all H s1 xs))"
    using ih by (elim conjE)
  have ih4: "cell (snd (Insert_all H s1 xs)) r c = cell s1 r c +
      of_nat (length (filter (\<lambda>y. unat (column H (cms_width s) r y) = c) xs))"
    if "r < unat (cms_depth s)" "c < unat (cms_width s)" for r c
    using ih that by (elim conjE) simp
  have i4: "cell s1 r c = cell s r c +
             (if c = unat (column H (cms_width s) r x) then 1 else 0)"
    if "r < unat (cms_depth s)" "c < unat (cms_width s)" for r c
    using i1 that by (elim conjE) simp
  have A: "same_dims s (snd (Insert_all H s (x # xs)))"
    unfolding step by (rule same_dims_trans [OF sd1 ih3])
  have B: "cell (snd (Insert_all H s (x # xs))) r c = cell s r c +
      of_nat (length (filter (\<lambda>y. unat (column H (cms_width s) r y) = c) (x # xs)))"
    if "r < unat (cms_depth s)" "c < unat (cms_width s)" for r c
    unfolding step using ih4 [OF that] i4 [OF that] by auto
  show ?case
    unfolding step using ih1 ih2 A [unfolded step] B [unfolded step] by simp
qed

subsection \<open>Count\<close>

text \<open>
  On a well-formed sketch \<open>Count\<close> succeeds; the loop computes the least of its start
  value and the selected counters.
\<close>

lemma cell_at_valid:
  assumes "shape s" "r < unat (cms_depth s)" "c < unat (cms_width s)"
  shows "cell_at s r c = Inr (cell s r c)"
  using assms by (simp add: cell_at_def cell_def shape_def)

lemma Count_rows_valid:
  assumes "valid s" "\<forall>r\<in>set rs. r < unat (cms_depth s)"
  shows "Count_rows H s item rs m = Inr (fold (\<lambda>r m. min m (selected H s item r)) rs m)"
  using assms
proof (induction rs arbitrary: m)
  case Nil
  show ?case by simp
next
  case (Cons r rs)
  have r: "r < unat (cms_depth s)" using Cons.prems(2) by simp
  have w0: "cms_width s \<noteq> 0" using r Cons.prems(1) by (auto simp: valid_def)
  have sh: "shape s" using Cons.prems(1) by (simp add: valid_def)
  have h: "hash_call H s r item = Inr (column H (cms_width s) r item)"
    by (rule hash_call_valid [OF Cons.prems(1) r])
  have c: "cell_at s r (unat (column H (cms_width s) r item)) = Inr (selected H s item r)"
    unfolding selected_def by (rule cell_at_valid [OF sh r column_less [OF w0]])
  have "\<forall>r\<in>set rs. r < unat (cms_depth s)" using Cons.prems(2) by simp
  from Cons.IH [OF Cons.prems(1) this]
  show ?case by (simp add: h c)
qed

lemma fold_min_Min:
  fixes m :: "'a::linorder"
  shows "fold (\<lambda>r m. min m (f r)) rs m = Min (insert m (f ` set rs))"
proof (induction rs arbitrary: m)
  case Nil
  show ?case by simp
next
  case (Cons r rs)
  have "Min (insert (min m (f r)) (f ` set rs)) = Min (insert m (insert (f r) (f ` set rs)))"
  proof (cases "set rs = {}")
    case True
    then show ?thesis by (simp add: min.commute)
  next
    case False
    then show ?thesis by (simp add: min.assoc min.commute min.left_commute)
  qed
  then show ?case by (simp add: Cons.IH)
qed

lemma Count_valid:
  assumes "valid s"
  shows "Count H s item =
           Inr (if min_selected H s item = - 1 then 0 else min_selected H s item)"
proof -
  have "\<forall>r\<in>set [0..<unat (cms_depth s)]. r < unat (cms_depth s)" by simp
  from Count_rows_valid [OF assms this, of H item "- 1"]
  show ?thesis
    by (simp add: Count_def fold_min_Min min_selected_def atLeast0LessThan)
qed

lemma min_selected_cases:
  "cms_depth s = 0 \<and> min_selected H s item = - 1 \<or>
   (\<exists>r < unat (cms_depth s). min_selected H s item = selected H s item r \<and>
      (\<forall>r' < unat (cms_depth s). selected H s item r \<le> selected H s item r'))"
proof (cases "cms_depth s = 0")
  case True
  then show ?thesis by (simp add: min_selected_def)
next
  case False
  let ?S = "selected H s item ` {..<unat (cms_depth s)}"
  have "0 < unat (cms_depth s)" using False by (simp add: unat_gt_0)
  then have "0 \<in> {..<unat (cms_depth s)}" by simp
  then have ne: "?S \<noteq> {}" by blast
  have fin: "finite ?S" by simp
  have "Min (insert (- 1) ?S) = min (- 1) (Min ?S)"
    using fin ne by (rule Min_insert)
  also have "\<dots> = Min ?S"
    by (rule min.absorb2) simp
  finally have eq: "min_selected H s item = Min ?S"
    unfolding min_selected_def .
  have "Min ?S \<in> ?S" using fin ne by (rule Min_in)
  then obtain r where r: "r < unat (cms_depth s)" "Min ?S = selected H s item r"
    by auto
  have "selected H s item r \<le> selected H s item r'" if "r' < unat (cms_depth s)" for r'
  proof -
    have "selected H s item r' \<in> ?S" using that by simp
    then have "Min ?S \<le> selected H s item r'" using fin by simp
    then show ?thesis using r(2) by simp
  qed
  then show ?thesis using r eq by auto
qed

subsection \<open>Construction and Clear\<close>

lemma valid_CountMinSketch:
  "depth \<noteq> 0 \<longrightarrow> width \<noteq> 0 \<Longrightarrow> valid (CountMinSketch width depth)"
  by (simp add: valid_def shape_def CountMinSketch_def)

lemma cell_CountMinSketch:
  "r < unat depth \<Longrightarrow> c < unat width \<Longrightarrow> cell (CountMinSketch width depth) r c = 0"
  by (simp add: cell_def CountMinSketch_def)

lemma Clear_rows_shape:
  assumes "shape s" "\<forall>r\<in>set rs. r < unat (cms_depth s)"
  shows "fst (Clear_rows rs s) = None \<and>
         same_dims s (snd (Clear_rows rs s)) \<and>
         (\<forall>r c. r < unat (cms_depth s) \<longrightarrow> c < unat (cms_width s) \<longrightarrow>
            cell (snd (Clear_rows rs s)) r c = (if r \<in> set rs then 0 else cell s r c))"
  using assms
proof (induction rs arbitrary: s)
  case Nil
  show ?case by (simp add: same_dims_refl)
next
  case (Cons r rs)
  define s1 where "s1 = s\<lparr> cms_counts := (cms_counts s)[r := map (\<lambda>_. 0) (cms_counts s ! r)] \<rparr>"
  have r: "r < unat (cms_depth s)" using Cons.prems(2) by simp
  have rl: "r < length (cms_counts s)" using r Cons.prems(1) by (simp add: shape_def)
  have sd1: "same_dims s s1"
    using rl by (simp add: s1_def same_dims_def map_update list_update_same_conv)
  have sh1: "shape s1" by (rule same_dims_shape [OF sd1 Cons.prems(1)])
  have d1: "cms_depth s1 = cms_depth s" "cms_width s1 = cms_width s"
    by (simp_all add: s1_def)
  have c1: "cell s1 r' c = (if r' = r then 0 else cell s r' c)"
    if "r' < unat (cms_depth s)" "c < unat (cms_width s)" for r' c
    using that Cons.prems(1) rl
    by (cases "r' = r") (simp_all add: s1_def cell_def shape_def)
  have step: "Clear_rows (r # rs) s = Clear_rows rs s1"
    using rl by (simp add: s1_def)
  have b1: "\<forall>r\<in>set rs. r < unat (cms_depth s1)"
    using Cons.prems(2) d1 by simp
  note ih = Cons.IH [OF sh1 b1, unfolded d1]
  have ih1: "fst (Clear_rows rs s1) = None" using ih by (rule conjunct1)
  have ih2: "same_dims s1 (snd (Clear_rows rs s1))" using ih by (elim conjE)
  have ih3: "cell (snd (Clear_rows rs s1)) r' c = (if r' \<in> set rs then 0 else cell s1 r' c)"
    if "r' < unat (cms_depth s)" "c < unat (cms_width s)" for r' c
    using ih that by (elim conjE) simp
  have A: "same_dims s (snd (Clear_rows rs s1))"
    by (rule same_dims_trans [OF sd1 ih2])
  have B: "cell (snd (Clear_rows rs s1)) r' c = (if r' \<in> set (r # rs) then 0 else cell s r' c)"
    if "r' < unat (cms_depth s)" "c < unat (cms_width s)" for r' c
    using ih3 [OF that] c1 [OF that] by auto
  show ?case
    unfolding step using ih1 A B by simp
qed

lemma Clear_valid:
  assumes "valid s"
  shows "fst (Clear s) = None \<and> valid (snd (Clear s)) \<and> same_dims s (snd (Clear s)) \<and>
         (\<forall>r c. r < unat (cms_depth s) \<longrightarrow> c < unat (cms_width s) \<longrightarrow>
            cell (snd (Clear s)) r c = 0)"
proof -
  have sh: "shape s" using assms by (simp add: valid_def)
  have b: "\<forall>r\<in>set [0..<unat (cms_depth s)]. r < unat (cms_depth s)" by simp
  note cr = Clear_rows_shape [OF sh b, folded Clear_def]
  have sd: "same_dims s (snd (Clear s))" using cr by (elim conjE)
  have "valid (snd (Clear s))" by (rule same_dims_valid [OF sd assms])
  then show ?thesis using cr by simp
qed

subsection \<open>Merge\<close>

text \<open>
  Between well-formed sketches of the same dimensions \<open>Merge\<close> succeeds and adds the
  counters place by place.
\<close>

lemma Merge_cols_shape:
  assumes "shape s" "shape other" "cms_width other = cms_width s"
    "cms_depth other = cms_depth s" "r < unat (cms_depth s)"
    "\<forall>c\<in>set cs. c < unat (cms_width s)" "distinct cs"
  shows "fst (Merge_cols other r cs s) = None \<and>
         same_dims s (snd (Merge_cols other r cs s)) \<and>
         (\<forall>r' c. r' < unat (cms_depth s) \<longrightarrow> c < unat (cms_width s) \<longrightarrow>
            cell (snd (Merge_cols other r cs s)) r' c =
              cell s r' c + (if r' = r \<and> c \<in> set cs then cell other r c else 0))"
  using assms
proof (induction cs arbitrary: s)
  case Nil
  show ?case by (simp add: same_dims_refl)
next
  case (Cons c cs)
  define s1 where "s1 = upd_cell s r c (cell other r c)"
  have c: "c < unat (cms_width s)" and nin: "c \<notin> set cs" and dist: "distinct cs"
    using Cons.prems by simp_all
  have r: "r < unat (cms_depth s)" using Cons.prems by simp
  have rl: "r < length (cms_counts s)" and cl: "c < length (cms_counts s ! r)"
    using r c Cons.prems(1) by (simp_all add: shape_def)
  have o: "cell_at other r c = Inr (cell other r c)"
    using Cons.prems(2,3,4) r c by (simp add: cell_at_valid)
  have a: "add_cell s r c (cell other r c) = Inr s1"
    unfolding s1_def by (rule add_cell_Inr [OF rl cl])
  have sd1: "same_dims s s1"
    unfolding s1_def by (rule same_dims_upd_cell [OF rl])
  have sh1: "shape s1" by (rule same_dims_shape [OF sd1 Cons.prems(1)])
  have d1: "cms_depth s1 = cms_depth s" "cms_width s1 = cms_width s"
    using sd1 by (simp_all add: same_dims_def)
  have c1: "cell s1 r' c' = cell s r' c' + (if r' = r \<and> c' = c then cell other r c else 0)"
    if "r' < unat (cms_depth s)" "c' < unat (cms_width s)" for r' c'
  proof -
    have "r' < length (cms_counts s)" "c' < length (cms_counts s ! r')"
      using that Cons.prems(1) by (simp_all add: shape_def)
    then show ?thesis unfolding s1_def by (rule cell_upd_cell)
  qed
  have step: "Merge_cols other r (c # cs) s = Merge_cols other r cs s1"
    by (simp add: o a)
  have p1: "cms_width other = cms_width s1" "cms_depth other = cms_depth s1"
    "r < unat (cms_depth s1)" "\<forall>c\<in>set cs. c < unat (cms_width s1)"
    using Cons.prems d1 by simp_all
  note ih = Cons.IH [OF sh1 Cons.prems(2) p1 dist, unfolded d1]
  have ih1: "fst (Merge_cols other r cs s1) = None" using ih by (rule conjunct1)
  have ih2: "same_dims s1 (snd (Merge_cols other r cs s1))" using ih by (elim conjE)
  have ih3: "cell (snd (Merge_cols other r cs s1)) r' c' =
      cell s1 r' c' + (if r' = r \<and> c' \<in> set cs then cell other r c' else 0)"
    if "r' < unat (cms_depth s)" "c' < unat (cms_width s)" for r' c'
    using ih that by (elim conjE) simp
  have A: "same_dims s (snd (Merge_cols other r cs s1))"
    by (rule same_dims_trans [OF sd1 ih2])
  have B: "cell (snd (Merge_cols other r cs s1)) r' c' =
      cell s r' c' + (if r' = r \<and> c' \<in> set (c # cs) then cell other r c' else 0)"
    if "r' < unat (cms_depth s)" "c' < unat (cms_width s)" for r' c'
    using ih3 [OF that] c1 [OF that] nin by auto
  show ?case
    unfolding step using ih1 A B by simp
qed

lemma Merge_rows_shape:
  assumes "shape s" "shape other" "cms_width other = cms_width s"
    "cms_depth other = cms_depth s" "\<forall>r\<in>set rs. r < unat (cms_depth s)" "distinct rs"
  shows "fst (Merge_rows other rs s) = None \<and>
         same_dims s (snd (Merge_rows other rs s)) \<and>
         (\<forall>r c. r < unat (cms_depth s) \<longrightarrow> c < unat (cms_width s) \<longrightarrow>
            cell (snd (Merge_rows other rs s)) r c =
              cell s r c + (if r \<in> set rs then cell other r c else 0))"
  using assms
proof (induction rs arbitrary: s)
  case Nil
  show ?case by (simp add: same_dims_refl)
next
  case (Cons r rs)
  define s1 where "s1 = snd (Merge_cols other r [0..<unat (cms_width s)] s)"
  have r: "r < unat (cms_depth s)" and nin: "r \<notin> set rs" and dist: "distinct rs"
    using Cons.prems by simp_all
  have b: "\<forall>c\<in>set [0..<unat (cms_width s)]. c < unat (cms_width s)" by simp
  have d: "distinct [0..<unat (cms_width s)]" by simp
  note mc = Merge_cols_shape [OF Cons.prems(1,2,3,4) r b d, folded s1_def]
  have m1: "Merge_cols other r [0..<unat (cms_width s)] s = (None, s1)"
    using mc by (simp add: prod_eq_iff s1_def)
  have sd1: "same_dims s s1" using mc by (elim conjE)
  have c1: "cell s1 r' c = cell s r' c + (if r' = r then cell other r c else 0)"
    if "r' < unat (cms_depth s)" "c < unat (cms_width s)" for r' c
    using mc that by (elim conjE) simp
  have sh1: "shape s1" by (rule same_dims_shape [OF sd1 Cons.prems(1)])
  have d1: "cms_depth s1 = cms_depth s" "cms_width s1 = cms_width s"
    using sd1 by (simp_all add: same_dims_def)
  have step: "Merge_rows other (r # rs) s = Merge_rows other rs s1"
    by (simp add: m1)
  have p1: "cms_width other = cms_width s1" "cms_depth other = cms_depth s1"
    "\<forall>r\<in>set rs. r < unat (cms_depth s1)"
    using Cons.prems d1 by simp_all
  note ih = Cons.IH [OF sh1 Cons.prems(2) p1 dist, unfolded d1]
  have ih1: "fst (Merge_rows other rs s1) = None" using ih by (rule conjunct1)
  have ih2: "same_dims s1 (snd (Merge_rows other rs s1))" using ih by (elim conjE)
  have ih3: "cell (snd (Merge_rows other rs s1)) r' c =
      cell s1 r' c + (if r' \<in> set rs then cell other r' c else 0)"
    if "r' < unat (cms_depth s)" "c < unat (cms_width s)" for r' c
    using ih that by (elim conjE) simp
  have A: "same_dims s (snd (Merge_rows other rs s1))"
    by (rule same_dims_trans [OF sd1 ih2])
  have B: "cell (snd (Merge_rows other rs s1)) r' c =
      cell s r' c + (if r' \<in> set (r # rs) then cell other r' c else 0)"
    if "r' < unat (cms_depth s)" "c < unat (cms_width s)" for r' c
    using ih3 [OF that] c1 [OF that] nin by auto
  show ?case
    unfolding step using ih1 A B by simp
qed

lemma Merge_valid:
  assumes "valid s" "valid other" "cms_width other = cms_width s"
    "cms_depth other = cms_depth s"
  shows "fst (Merge s other) = None \<and> valid (snd (Merge s other)) \<and>
         same_dims s (snd (Merge s other)) \<and>
         (\<forall>r c. r < unat (cms_depth s) \<longrightarrow> c < unat (cms_width s) \<longrightarrow>
            cell (snd (Merge s other)) r c = cell s r c + cell other r c)"
proof -
  have sh: "shape s" "shape other" using assms by (simp_all add: valid_def)
  have b: "\<forall>r\<in>set [0..<unat (cms_depth s)]. r < unat (cms_depth s)" by simp
  have d: "distinct [0..<unat (cms_depth s)]" by simp
  have eq: "Merge s other = Merge_rows other [0..<unat (cms_depth s)] s"
    using assms(3,4) by (simp add: Merge_def)
  note mr = Merge_rows_shape [OF sh assms(3,4) b d, folded eq]
  have sd: "same_dims s (snd (Merge s other))" using mr by (elim conjE)
  have "valid (snd (Merge s other))" by (rule same_dims_valid [OF sd assms(1)])
  then show ?thesis using mr by simp
qed

subsection \<open>The sketch of width 1 and depth 1\<close>

lemma CountMinSketch_unit: "CountMinSketch 1 1 = unit_sketch 0"
  by (simp add: CountMinSketch_def unit_sketch_def)

lemma Insert_unit: "Insert H (unit_sketch c) item = (None, unit_sketch (c + 1))"
  by (simp add: Insert_def unit_sketch_def hash_call_def HashFunction_def add_cell_def)

lemma Insert_all_unit:
  "Insert_all H (unit_sketch c) (replicate n item) = (None, unit_sketch (c + of_nat n))"
  by (induction n arbitrary: c) (simp_all add: Insert_unit ac_simps)

lemma Count_unit: "Count H (unit_sketch c) item = Inr (if c = - 1 then 0 else c)"
  by (simp add: Count_def unit_sketch_def hash_call_def HashFunction_def cell_at_def)

lemma Merge_unit: "Merge (unit_sketch a) (unit_sketch b) = (None, unit_sketch (a + b))"
  by (simp add: Merge_def unit_sketch_def cell_at_def add_cell_def)

subsection \<open>Count after insertions\<close>

lemma count_list_replicate_same: "count_list (replicate n x) x = n"
  by (induction n) simp_all

lemma Count_min:
  assumes "valid s" "cms_depth s \<noteq> 0"
    "\<forall>r < unat (cms_depth s). selected H s item r \<noteq> - 1"
  shows "\<exists>r0 < unat (cms_depth s). Count H s item = Inr (selected H s item r0) \<and>
           (\<forall>r < unat (cms_depth s). selected H s item r0 \<le> selected H s item r)"
proof -
  from min_selected_cases [of s H item] assms(2)
  obtain r0 where r0: "r0 < unat (cms_depth s)"
    "min_selected H s item = selected H s item r0"
    "\<forall>r' < unat (cms_depth s). selected H s item r0 \<le> selected H s item r'"
    by auto
  have "min_selected H s item \<noteq> - 1"
    using r0(1,2) assms(3) by simp
  then have "Count H s item = Inr (selected H s item r0)"
    using r0(2) by (simp add: Count_valid [OF assms(1)])
  then show ?thesis using r0(1,3) by auto
qed

lemma Count_depth_0:
  assumes "valid s" "cms_depth s = 0"
  shows "Count H s item = Inr 0"
  using assms(2) by (simp add: Count_valid [OF assms(1)] min_selected_def)

lemma unat_add_of_nat:
  fixes a :: u32
  assumes "unat a + k < 2 ^ 32"
  shows "unat (a + of_nat k) = unat a + k"
proof -
  have k: "unat (of_nat k :: u32) = k"
    using assms by (simp add: unat_of_nat)
  have "unat a + unat (of_nat k :: u32) < 2 ^ LENGTH(32)"
    using assms k by simp
  then have "unat (a + of_nat k) = unat a + unat (of_nat k :: u32)"
    by (simp only: unat_add_lem)
  then show ?thesis using k by simp
qed

lemma selected_after_inserts:
  assumes "valid s" "r < unat (cms_depth s)"
  shows "selected H (snd (Insert_all H s items)) item r =
           selected H s item r +
           of_nat (length (filter (\<lambda>y. unat (column H (cms_width s) r y) =
                                        unat (column H (cms_width s) r item)) items))"
proof -
  note ia = Insert_all_valid [OF assms(1), of H items]
  have sd: "same_dims s (snd (Insert_all H s items))" using ia by (elim conjE)
  have w: "cms_width (snd (Insert_all H s items)) = cms_width s"
    using sd by (simp add: same_dims_def)
  have "cms_depth s \<noteq> 0" using assms(2) by auto
  then have "cms_width s \<noteq> 0" using assms(1) by (simp add: valid_def)
  then have c: "unat (column H (cms_width s) r item) < unat (cms_width s)"
    by (rule column_less)
  show ?thesis
    unfolding selected_def w using ia assms(2) c by (elim conjE) simp
qed

lemma count_list_le_same_column:
  "count_list items item \<le> length (filter (\<lambda>y. f y = f item) items)"
  by (induction items) auto

lemma selected_zero:
  assumes "valid s" "r < unat (cms_depth s)"
    "\<forall>r c. r < unat (cms_depth s) \<longrightarrow> c < unat (cms_width s) \<longrightarrow> cell s r c = 0"
  shows "selected H s item r = 0"
proof -
  have "cms_depth s \<noteq> 0" using assms(2) by auto
  then have "cms_width s \<noteq> 0" using assms(1) by (simp add: valid_def)
  then have "unat (column H (cms_width s) r item) < unat (cms_width s)"
    by (rule column_less)
  then show ?thesis
    using assms(2,3) by (simp add: selected_def)
qed

lemma Count_all_zero:
  assumes "valid s"
    "\<forall>r c. r < unat (cms_depth s) \<longrightarrow> c < unat (cms_width s) \<longrightarrow> cell s r c = 0"
  shows "Count H s item = Inr 0"
proof -
  from min_selected_cases [of s H item]
  have "min_selected H s item = - 1 \<or> min_selected H s item = 0"
    using selected_zero [OF assms(1) _ assms(2), of _ H item] by auto
  then show ?thesis
    by (auto simp: Count_valid [OF assms(1)])
qed

lemma unat_minus_1_u32: "unat (- 1 :: u32) = 4294967295"
  by (simp add: unsigned_minus_1_eq_mask mask_eq_exp_minus_1)

lemma selected_after_inserts_unat:
  assumes "valid s" "r < unat (cms_depth s)"
    "\<forall>r c. r < unat (cms_depth s) \<longrightarrow> c < unat (cms_width s) \<longrightarrow>
       unat (cell s r c) + length items < 2 ^ 32 - 1"
  shows "unat (selected H s item r) \<le> unat (selected H (snd (Insert_all H s items)) item r)"
    and "unat (selected H s item r) + count_list items item
           \<le> unat (selected H (snd (Insert_all H s items)) item r)"
    and "selected H (snd (Insert_all H s items)) item r \<noteq> - 1"
    and "selected H s item r \<noteq> - 1"
proof -
  define k where "k = length (filter (\<lambda>y. unat (column H (cms_width s) r y) =
                                  unat (column H (cms_width s) r item)) items)"
  have "cms_depth s \<noteq> 0" using assms(2) by auto
  then have "cms_width s \<noteq> 0" using assms(1) by (simp add: valid_def)
  then have "unat (column H (cms_width s) r item) < unat (cms_width s)"
    by (rule column_less)
  then have b: "unat (selected H s item r) + length items < 2 ^ 32 - 1"
    unfolding selected_def using assms(2,3) by simp
  have k1: "count_list items item \<le> k"
    unfolding k_def by (rule count_list_le_same_column)
  have k2: "k \<le> length items"
    unfolding k_def by (rule length_filter_le)
  have "unat (selected H s item r) + k < 2 ^ 32"
    using b k2 by simp
  then have "unat (selected H s item r + of_nat k) = unat (selected H s item r) + k"
    by (rule unat_add_of_nat)
  then have eq: "unat (selected H (snd (Insert_all H s items)) item r) =
      unat (selected H s item r) + k"
    by (simp only: selected_after_inserts [OF assms(1,2)] k_def)
  show "unat (selected H s item r) \<le> unat (selected H (snd (Insert_all H s items)) item r)"
    using eq by simp
  show "unat (selected H s item r) + count_list items item
           \<le> unat (selected H (snd (Insert_all H s items)) item r)"
    using eq k1 by simp
  have "unat (selected H (snd (Insert_all H s items)) item r) \<noteq> unat (- 1 :: u32)"
    using eq b k2 by (simp add: unat_minus_1_u32)
  then show "selected H (snd (Insert_all H s items)) item r \<noteq> - 1"
    by auto
  have "unat (selected H s item r) \<noteq> unat (- 1 :: u32)"
    using b by (simp add: unat_minus_1_u32)
  then show "selected H s item r \<noteq> - 1"
    by auto
qed

lemma Count_selected_zero:
  assumes "valid s" "\<forall>r < unat (cms_depth s). selected H s item r = 0"
  shows "Count H s item = Inr 0"
proof -
  from min_selected_cases [of s H item]
  have "min_selected H s item = - 1 \<or> min_selected H s item = 0"
    using assms(2) by auto
  then show ?thesis
    by (auto simp: Count_valid [OF assms(1)])
qed

lemma selected_after_same_key:
  assumes "width \<noteq> 0" "r < unat depth"
  shows "selected H (snd (Insert_all H (CountMinSketch width depth) (replicate n item))) item r
           = of_nat n"
proof -
  let ?s = "CountMinSketch width depth"
  have v: "valid ?s" using assms(1) by (simp add: valid_CountMinSketch)
  have d: "cms_depth ?s = depth" "cms_width ?s = width"
    by (simp_all add: CountMinSketch_def)
  have r: "r < unat (cms_depth ?s)" using assms(2) d by simp
  have "selected H ?s item r = 0"
    by (rule selected_zero [OF v r]) (simp add: d cell_CountMinSketch)
  then show ?thesis
    by (simp add: selected_after_inserts [OF v r])
qed

lemma cell_unit: "cell (unit_sketch c) 0 0 = c"
  by (simp add: cell_def unit_sketch_def)

lemma le_plus_1_u32:
  fixes a :: u32
  assumes "a \<noteq> - 1"
  shows "a \<le> a + 1"
proof -
  have "unat a \<noteq> unat (- 1 :: u32)"
    using assms by (simp add: word_unat_eq_iff)
  moreover have "unat a < 2 ^ 32"
    using unsigned_less [of a] by simp
  ultimately have "unat a + unat (1 :: u32) < 2 ^ LENGTH(32)"
    by (simp add: unat_minus_1_u32)
  then show ?thesis
    by (simp only: no_olen_add_nat)
qed

lemma min_selected_min_cell:
  assumes "cms_depth s \<noteq> 0"
  shows "min_selected H s item = min_cell H s item"
proof -
  let ?S = "selected H s item ` {..<unat (cms_depth s)}"
  have "0 < unat (cms_depth s)" using assms by (simp add: unat_gt_0)
  then have "0 \<in> {..<unat (cms_depth s)}" by simp
  then have ne: "?S \<noteq> {}" by blast
  have fin: "finite ?S" by simp
  have "Min (insert (- 1) ?S) = min (- 1) (Min ?S)"
    using fin ne by (rule Min_insert)
  also have "\<dots> = Min ?S"
    by (rule min.absorb2) simp
  finally show ?thesis
    unfolding min_selected_def min_cell_def .
qed

subsection \<open>Count after a merge\<close>

lemma selected_after_merge:
  assumes "valid a" "valid b" "cms_width b = cms_width a" "cms_depth b = cms_depth a"
    "r < unat (cms_depth a)"
  shows "selected H (snd (Merge a b)) item r = selected H a item r + selected H b item r"
proof -
  note mg = Merge_valid [OF assms(1,2,3,4)]
  have sd: "same_dims a (snd (Merge a b))" using mg by (elim conjE)
  have w: "cms_width (snd (Merge a b)) = cms_width a"
    using sd by (simp add: same_dims_def)
  have "cms_depth a \<noteq> 0" using assms(5) by auto
  then have "cms_width a \<noteq> 0" using assms(1) by (simp add: valid_def)
  then have c: "unat (column H (cms_width a) r item) < unat (cms_width a)"
    by (rule column_less)
  show ?thesis
    unfolding selected_def w assms(3) using mg assms(5) c by (elim conjE) simp
qed

lemma not_sentinel:
  fixes x :: u32
  assumes "unat x < 2 ^ 32 - 1"
  shows "x \<noteq> - 1"
proof
  assume "x = - 1"
  then have "unat x = 4294967295" by (simp add: unat_minus_1_u32)
  then show False using assms by simp
qed

lemma Count_after_merge:
  assumes "valid a" "valid b" "cms_width b = cms_width a" "cms_depth b = cms_depth a"
    "\<forall>r < unat (cms_depth a).
       unat (selected H a item r) + unat (selected H b item r) < 2 ^ 32 - 1"
  shows "\<exists>va vb v'. Count H a item = Inr va \<and> Count H b item = Inr vb \<and>
           Count H (snd (Merge a b)) item = Inr v' \<and>
           unat va + unat vb \<le> unat v' \<and>
           ((\<exists>r < unat (cms_depth a). selected H a item r = va \<and> selected H b item r = vb)
              \<longrightarrow> unat v' = unat va + unat vb) \<and>
           (cms_depth a = 1 \<longrightarrow> unat v' = unat va + unat vb)"
proof -
  let ?m = "snd (Merge a b)"
  note mg = Merge_valid [OF assms(1,2,3,4)]
  have vm: "valid ?m" using mg by (elim conjE)
  have sd: "same_dims a ?m" using mg by (elim conjE)
  have dm: "cms_depth ?m = cms_depth a" using sd by (simp add: same_dims_def)
  show ?thesis
  proof (cases "cms_depth a = 0")
    case True
    have "Count H a item = Inr 0" by (rule Count_depth_0 [OF assms(1) True])
    moreover have "Count H b item = Inr 0"
      using Count_depth_0 [OF assms(2)] assms(4) True by simp
    moreover have "Count H ?m item = Inr 0"
      using Count_depth_0 [OF vm] dm True by simp
    ultimately show ?thesis using True by simp
  next
    case False
    let ?d = "unat (cms_depth a)"
    have sum: "unat (selected H ?m item r) = unat (selected H a item r) + unat (selected H b item r)"
      if "r < ?d" for r
    proof -
      have "unat (selected H a item r) + unat (selected H b item r) < 2 ^ LENGTH(32)"
        using assms(5) that by fastforce
      then have "unat (selected H a item r + selected H b item r) =
          unat (selected H a item r) + unat (selected H b item r)"
        by (simp only: unat_add_lem)
      then show ?thesis
        by (simp only: selected_after_merge [OF assms(1,2,3,4) that])
    qed
    have na: "\<forall>r < ?d. selected H a item r \<noteq> - 1"
    proof (intro allI impI)
      fix r assume "r < ?d"
      then have "unat (selected H a item r) < 2 ^ 32 - 1" using assms(5) by fastforce
      then show "selected H a item r \<noteq> - 1" by (rule not_sentinel)
    qed
    have nb: "\<forall>r < unat (cms_depth b). selected H b item r \<noteq> - 1"
      unfolding assms(4)
    proof (intro allI impI)
      fix r assume "r < ?d"
      then have "unat (selected H b item r) < 2 ^ 32 - 1" using assms(5) by fastforce
      then show "selected H b item r \<noteq> - 1" by (rule not_sentinel)
    qed
    have nm: "\<forall>r < unat (cms_depth ?m). selected H ?m item r \<noteq> - 1"
      unfolding dm
    proof (intro allI impI)
      fix r assume r: "r < ?d"
      then have "unat (selected H ?m item r) < 2 ^ 32 - 1"
        using assms(5) sum [OF r] by simp
      then show "selected H ?m item r \<noteq> - 1" by (rule not_sentinel)
    qed
    from Count_min [OF assms(1) False na]
    obtain ra where ra: "ra < ?d" "Count H a item = Inr (selected H a item ra)"
      "\<forall>r < ?d. selected H a item ra \<le> selected H a item r"
      by auto
    from Count_min [OF assms(2) _ nb] False assms(4)
    obtain rb where rb: "rb < ?d" "Count H b item = Inr (selected H b item rb)"
      "\<forall>r < ?d. selected H b item rb \<le> selected H b item r"
      by auto
    from Count_min [OF vm _ nm] False dm
    obtain rm where rm: "rm < ?d" "Count H ?m item = Inr (selected H ?m item rm)"
      "\<forall>r < ?d. selected H ?m item rm \<le> selected H ?m item r"
      by auto
    have lower: "unat (selected H a item ra) + unat (selected H b item rb)
        \<le> unat (selected H ?m item rm)"
    proof -
      have "unat (selected H a item ra) \<le> unat (selected H a item rm)"
        using ra(3) rm(1) by (simp add: word_le_nat_alt)
      moreover have "unat (selected H b item rb) \<le> unat (selected H b item rm)"
        using rb(3) rm(1) by (simp add: word_le_nat_alt)
      ultimately show ?thesis using sum [OF rm(1)] by simp
    qed
    have upper: "unat (selected H ?m item rm)
        \<le> unat (selected H a item ra) + unat (selected H b item rb)"
      if r: "r < ?d" "selected H a item r = selected H a item ra"
        "selected H b item r = selected H b item rb" for r
    proof -
      have "unat (selected H ?m item rm) \<le> unat (selected H ?m item r)"
        using rm(3) r(1) by (simp add: word_le_nat_alt)
      then show ?thesis using sum [OF r(1)] r(2,3) by simp
    qed
    have "(\<exists>r < ?d. selected H a item r = selected H a item ra \<and>
             selected H b item r = selected H b item rb) \<longrightarrow>
          unat (selected H ?m item rm) =
            unat (selected H a item ra) + unat (selected H b item rb)"
      using lower upper by (meson le_antisym)
    moreover have "unat (selected H ?m item rm) =
        unat (selected H a item ra) + unat (selected H b item rb)" if "cms_depth a = 1"
    proof -
      have z: "ra = 0" "rb = 0" using ra(1) rb(1) that by simp_all
      have "0 < unat (cms_depth a)" using that by simp
      from upper [OF this] lower show ?thesis unfolding z by simp
    qed
    ultimately show ?thesis
      using ra(2) rb(2) rm(2) lower by simp
  qed
qed

subsection \<open>TopK\<close>

text \<open>
  A descending sort meets the contract of \<open>std::sort\<close> and that of
  \<open>std::nth_element\<close>, so \<open>TopK\<close> always has a result.
\<close>

lemma TopK_collect_valid:
  assumes "valid s"
  shows "TopK_collect H s items all = Inr (all @ map (\<lambda>i. (i, estimate H s i)) items)"
proof (induction items arbitrary: all)
  case Nil
  show ?case by simp
next
  case (Cons i items)
  have "Count H s i = Inr (estimate H s i)"
    by (simp add: Count_valid [OF assms] estimate_def)
  then show ?case by (simp add: Cons.IH)
qed

lemma sorted_desc_rev_sort_key:
  "sorted_wrt (\<lambda>a b. \<not> by_count_desc b a) (rev (sort_key snd xs))"
proof -
  have "sorted (map snd (sort_key snd xs))" by (rule sorted_sort_key)
  then have "sorted_wrt (\<lambda>a b. snd a \<le> snd b) (sort_key snd xs)"
    by (simp add: sorted_map)
  then have "sorted_wrt (\<lambda>a b. snd b \<le> snd a) (rev (sort_key snd xs))"
    by (simp add: sorted_wrt_rev)
  then show ?thesis
    by (simp add: by_count_desc_def not_less)
qed

lemma std_sort_rev_sort_key: "std_sort by_count_desc xs (rev (sort_key snd xs))"
  by (simp add: std_sort_def sorted_desc_rev_sort_key)

lemma std_nth_element_of_std_sort:
  assumes "std_sort by_count_desc xs ys" "n < length xs"
  shows "std_nth_element by_count_desc n xs ys"
proof -
  let ?P = "\<lambda>a b. \<not> by_count_desc b a"
  have m: "mset ys = mset xs" and so: "sorted_wrt ?P ys"
    using assms(1) by (simp_all add: std_sort_def)
  have len: "length ys = length xs"
    using m by (rule mset_eq_length)
  have "sorted_wrt ?P (take n ys @ drop n ys)" using so by simp
  then have a: "\<forall>a \<in> set (take n ys). \<forall>b \<in> set (drop n ys). ?P a b"
    by (simp only: sorted_wrt_append) simp
  have dn: "drop n ys = ys ! n # drop (Suc n) ys"
    using assms(2) len by (simp add: Cons_nth_drop_Suc)
  have "sorted_wrt ?P (drop n ys)" using so by (rule sorted_wrt_drop)
  then have "\<forall>b \<in> set (drop (Suc n) ys). ?P (ys ! n) b"
    unfolding dn by simp
  moreover have "?P (ys ! n) (ys ! n)"
    by (simp add: by_count_desc_def)
  ultimately have b: "\<forall>b \<in> set (drop n ys). ?P (ys ! n) b"
    by (subst dn) simp
  show ?thesis
    unfolding std_nth_element_def using m a b by simp
qed

lemma TopK_exists:
  assumes "valid s"
  shows "\<exists>top. TopK H s k candidates (Inr top)"
proof -
  let ?all = "map (\<lambda>i. (i, estimate H s i)) candidates"
  have c: "TopK_collect H s candidates [] = Inr ?all"
    by (simp add: TopK_collect_valid [OF assms])
  show ?thesis
  proof (cases "unat k \<ge> length ?all")
    case True
    have "TopK H s k candidates (Inr (rev (sort_key snd ?all)))"
      using c True std_sort_rev_sort_key by (rule TopK_sort_all)
    then show ?thesis by (rule exI)
  next
    case False
    let ?mid = "rev (sort_key snd ?all)"
    have n: "unat k < length ?all" using False by simp
    have "std_nth_element by_count_desc (unat k) ?all ?mid"
      using std_sort_rev_sort_key n by (rule std_nth_element_of_std_sort)
    then have "TopK H s k candidates (Inr (rev (sort_key snd (take (unat k) ?mid))))"
      using c False std_sort_rev_sort_key by (intro TopK_select)
    then show ?thesis by (rule exI)
  qed
qed

lemma TopK_properties:
  assumes "valid s" "TopK H s k candidates res"
  shows "\<exists>top all. res = Inr top \<and>
           map fst all = candidates \<and>
           (\<forall>p \<in> set all. Count H s (fst p) = Inr (snd p)) \<and>
           length top = min (unat k) (length candidates) \<and>
           sorted_wrt (\<lambda>a b. snd b \<le> snd a) top \<and>
           (\<forall>p \<in> set top. Count H s (fst p) = Inr (snd p)) \<and>
           mset top \<subseteq># mset all \<and>
           (\<forall>p \<in> set top. \<forall>q \<in># mset all - mset top. snd q \<le> snd p)"
proof -
  define all where "all = map (\<lambda>i. (i, estimate H s i)) candidates"
  have c: "TopK_collect H s candidates [] = Inr all"
    by (simp add: TopK_collect_valid [OF assms(1)] all_def)
  have fst_all: "map fst all = candidates"
    by (simp add: all_def comp_def)
  have len_all: "length all = length candidates"
    by (simp add: all_def)
  have cnt: "\<forall>p \<in> set all. Count H s (fst p) = Inr (snd p)"
    by (auto simp: all_def Count_valid [OF assms(1)] estimate_def)
  from assms(2) show ?thesis
  proof (cases rule: TopK.cases)
    case (TopK_fail e)
    then show ?thesis using c by simp
  next
    case (TopK_sort_all all' top)
    have eq: "all' = all" using TopK_sort_all(2) c by simp
    have m: "mset top = mset all" and so: "sorted_wrt (\<lambda>a b. \<not> by_count_desc b a) top"
      using TopK_sort_all(4) eq by (simp_all add: std_sort_def)
    have "length top = length all" using m by (rule mset_eq_length)
    then have l: "length top = min (unat k) (length candidates)"
      using TopK_sort_all(3) eq len_all by simp
    have s: "sorted_wrt (\<lambda>a b. snd b \<le> snd a) top"
      using so by (simp add: by_count_desc_def not_less)
    have "set top = set all" using m by (rule mset_eq_setD)
    then have ct: "\<forall>p \<in> set top. Count H s (fst p) = Inr (snd p)"
      using cnt by simp
    have sub: "mset top \<subseteq># mset all" using m by simp
    have rest: "\<forall>p \<in> set top. \<forall>q \<in># mset all - mset top. snd q \<le> snd p"
      using m by simp
    show ?thesis
      using TopK_sort_all(1) fst_all cnt l s ct sub rest by blast
  next
    case (TopK_select all' mid top)
    let ?n = "unat k"
    have eq: "all' = all" using TopK_select(2) c by simp
    have n: "?n < length all" using TopK_select(3) eq by simp
    have mm: "mset mid = mset all"
      and part: "\<forall>a \<in> set (take ?n mid). \<forall>b \<in> set (drop ?n mid). \<not> by_count_desc b a"
      using TopK_select(4) eq by (simp_all add: std_nth_element_def)
    have mt: "mset top = mset (take ?n mid)"
      and so: "sorted_wrt (\<lambda>a b. \<not> by_count_desc b a) top"
      using TopK_select(5) by (simp_all add: std_sort_def)
    have lm: "length mid = length all" using mm by (rule mset_eq_length)
    have "length top = length (take ?n mid)" using mt by (rule mset_eq_length)
    then have l: "length top = min (unat k) (length candidates)"
      using n lm len_all by simp
    have s: "sorted_wrt (\<lambda>a b. snd b \<le> snd a) top"
      using so by (simp add: by_count_desc_def not_less)
    have split: "mset all = mset top + mset (drop ?n mid)"
    proof -
      have "mset (take ?n mid) + mset (drop ?n mid) = mset (take ?n mid @ drop ?n mid)"
        by (simp only: mset_append)
      also have "\<dots> = mset mid" by (simp only: append_take_drop_id)
      finally show ?thesis using mm mt by simp
    qed
    have sub: "mset top \<subseteq># mset all" using split by simp
    have diff: "mset all - mset top = mset (drop ?n mid)" using split by simp
    have st: "set top = set (take ?n mid)" using mt by (rule mset_eq_setD)
    have "set top \<subseteq> set all"
      using sub by (metis set_mset_mono set_mset_mset)
    then have ct: "\<forall>p \<in> set top. Count H s (fst p) = Inr (snd p)"
      using cnt by blast
    have rest: "\<forall>p \<in> set top. \<forall>q \<in># mset all - mset top. snd q \<le> snd p"
      unfolding diff st using part by (simp add: by_count_desc_def not_less)
    show ?thesis
      using TopK_select(1) fst_all cnt l s ct sub rest by blast
  qed
qed

section \<open>The claims\<close>

subsection \<open>Claim C1\<close>

text \<open>
  C1, amended. Take a well-formed sketch with at least one row and a list of keys such
  that every counter plus the length of the list stays below \<open>2^32 - 1\<close> (on a new or
  cleared sketch: fewer than \<open>2^32 - 1\<close> keys). Inserting the keys one after the other
  succeeds, and afterwards \<open>Count\<close> of a key returns at least the number of times the key
  occurs in the list.
\<close>

theorem C1_no_underestimate_below_sentinel:
  assumes "valid s" "cms_depth s \<noteq> 0"
    "\<forall>r c. r < unat (cms_depth s) \<longrightarrow> c < unat (cms_width s) \<longrightarrow>
       unat (cell s r c) + length items < 2 ^ 32 - 1"
  shows "fst (Insert_all H s items) = None \<and>
         (\<exists>v. Count H (snd (Insert_all H s items)) item = Inr v \<and>
              count_list items item \<le> unat v)"
proof -
  let ?s' = "snd (Insert_all H s items)"
  note ia = Insert_all_valid [OF assms(1), of H items]
  have ok: "fst (Insert_all H s items) = None" using ia by (rule conjunct1)
  have v': "valid ?s'" using ia by (elim conjE)
  have sd: "same_dims s ?s'" using ia by (elim conjE)
  have d: "cms_depth ?s' = cms_depth s" using sd by (simp add: same_dims_def)
  have ne: "\<forall>r < unat (cms_depth ?s'). selected H ?s' item r \<noteq> - 1"
    unfolding d using selected_after_inserts_unat(3) [OF assms(1) _ assms(3)] by simp
  from Count_min [OF v' _ ne] assms(2) d
  obtain r0 where r0: "r0 < unat (cms_depth s)"
    "Count H ?s' item = Inr (selected H ?s' item r0)"
    by auto
  have "count_list items item \<le> unat (selected H ?s' item r0)"
    using selected_after_inserts_unat(2) [OF assms(1) r0(1) assms(3), of H item] by simp
  then show ?thesis using ok r0(2) by simp
qed

theorem C1_no_underestimate_below_sentinel_witness:
  "valid (CountMinSketch 3 2) \<and> cms_depth (CountMinSketch 3 2) \<noteq> 0 \<and>
   fst (Insert_all xor_hash (CountMinSketch 3 2) [5, 2, 5]) = None \<and>
   (\<exists>v. Count xor_hash (snd (Insert_all xor_hash (CountMinSketch 3 2) [5, 2, 5])) 5 = Inr v \<and>
        count_list [5, 2, 5 :: u64] 5 \<le> unat v)"
proof -
  have v: "valid (CountMinSketch 3 2)"
    by (rule valid_CountMinSketch) simp
  have d: "cms_depth (CountMinSketch 3 2) \<noteq> 0"
    by (simp add: CountMinSketch_def)
  have b: "\<forall>r c. r < unat (cms_depth (CountMinSketch 3 2)) \<longrightarrow>
             c < unat (cms_width (CountMinSketch 3 2)) \<longrightarrow>
             unat (cell (CountMinSketch 3 2) r c) + length [5, 2, 5 :: u64] < 2 ^ 32 - 1"
    by (simp add: CountMinSketch_def cell_def)
  show ?thesis
    using v d C1_no_underestimate_below_sentinel [OF v d b, of xor_hash 5] by simp
qed

text \<open>
  Against C1 as stated: \<open>2^32 - 1\<close> insertions of the key 7 into a new sketch of width 1
  and depth 1 all succeed, and \<open>Count\<close> of the key then returns 0, because the counter
  holds the value the running minimum starts from. After \<open>2^32\<close> insertions \<open>Count\<close>
  of the key returns 0 again, because the counter has wrapped around.
\<close>

theorem C1_counterexample:
  "fst (Insert_all xor_hash (CountMinSketch 1 1) (replicate 4294967295 7)) = None \<and>
   Count xor_hash (snd (Insert_all xor_hash (CountMinSketch 1 1) (replicate 4294967295 7))) 7
     = Inr 0 \<and>
   count_list (replicate 4294967295 (7 :: u64)) 7 = 4294967295 \<and>
   fst (Insert_all xor_hash (CountMinSketch 1 1) (replicate 4294967296 7)) = None \<and>
   Count xor_hash (snd (Insert_all xor_hash (CountMinSketch 1 1) (replicate 4294967296 7))) 7
     = Inr 0 \<and>
   count_list (replicate 4294967296 (7 :: u64)) 7 = 4294967296"
  by (simp add: CountMinSketch_unit Insert_all_unit Count_unit count_list_replicate_same)

subsection \<open>Claim C2\<close>

text \<open>
  C2, amended. For two well-formed sketches of the same width and depth, \<open>Merge\<close>
  succeeds and adds to every counter of the receiver the argument's counter at the same
  place, modulo \<open>2^32\<close>. If, for a key, in no row the two selected counters add up to
  \<open>2^32 - 1\<close> or more, then \<open>Count\<close> of the key after the merge is at least the sum of
  its \<open>Count\<close> in the receiver before and in the argument. The two are equal when one row
  holds the least selected counter in both sketches, as is the case when the depth is 1.
\<close>

theorem C2_merge_count_at_least_sum:
  assumes "valid a" "valid b" "cms_width b = cms_width a" "cms_depth b = cms_depth a"
  shows "fst (Merge a b) = None \<and>
         (\<forall>r c. r < unat (cms_depth a) \<longrightarrow> c < unat (cms_width a) \<longrightarrow>
            cell (snd (Merge a b)) r c = cell a r c + cell b r c) \<and>
         ((\<forall>r < unat (cms_depth a).
             unat (selected H a item r) + unat (selected H b item r) < 2 ^ 32 - 1) \<longrightarrow>
          (\<exists>va vb v'. Count H a item = Inr va \<and> Count H b item = Inr vb \<and>
             Count H (snd (Merge a b)) item = Inr v' \<and>
             unat va + unat vb \<le> unat v' \<and>
             ((\<exists>r < unat (cms_depth a). selected H a item r = va \<and> selected H b item r = vb)
                \<longrightarrow> unat v' = unat va + unat vb) \<and>
             (cms_depth a = 1 \<longrightarrow> unat v' = unat va + unat vb)))"
proof -
  note mg = Merge_valid [OF assms]
  have m1: "fst (Merge a b) = None" using mg by (rule conjunct1)
  have m3: "\<forall>r c. r < unat (cms_depth a) \<longrightarrow> c < unat (cms_width a) \<longrightarrow>
            cell (snd (Merge a b)) r c = cell a r c + cell b r c"
    using mg by (elim conjE)
  have m4: "(\<forall>r < unat (cms_depth a).
             unat (selected H a item r) + unat (selected H b item r) < 2 ^ 32 - 1) \<longrightarrow>
          (\<exists>va vb v'. Count H a item = Inr va \<and> Count H b item = Inr vb \<and>
             Count H (snd (Merge a b)) item = Inr v' \<and>
             unat va + unat vb \<le> unat v' \<and>
             ((\<exists>r < unat (cms_depth a). selected H a item r = va \<and> selected H b item r = vb)
                \<longrightarrow> unat v' = unat va + unat vb) \<and>
             (cms_depth a = 1 \<longrightarrow> unat v' = unat va + unat vb))"
    by (intro impI) (rule Count_after_merge [OF assms])
  show ?thesis
    by (rule conjI [OF m1 conjI [OF m3 m4]])
qed

theorem C2_merge_count_at_least_sum_witness:
  "valid \<lparr>cms_width = 3, cms_depth = 2, cms_counts = [[1, 0, 2], [2, 0, 1]],
          cms_hash_functions = [0, 1]\<rparr> \<and>
   valid \<lparr>cms_width = 3, cms_depth = 2, cms_counts = [[0, 0, 1], [1, 0, 0]],
          cms_hash_functions = [0, 1]\<rparr> \<and>
   fst (Merge \<lparr>cms_width = 3, cms_depth = 2, cms_counts = [[1, 0, 2], [2, 0, 1]],
          cms_hash_functions = [0, 1]\<rparr>
        \<lparr>cms_width = 3, cms_depth = 2, cms_counts = [[0, 0, 1], [1, 0, 0]],
          cms_hash_functions = [0, 1]\<rparr>) = None \<and>
   (\<exists>va vb v'.
      Count xor_hash \<lparr>cms_width = 3, cms_depth = 2, cms_counts = [[1, 0, 2], [2, 0, 1]],
          cms_hash_functions = [0, 1]\<rparr> 5 = Inr va \<and>
      Count xor_hash \<lparr>cms_width = 3, cms_depth = 2, cms_counts = [[0, 0, 1], [1, 0, 0]],
          cms_hash_functions = [0, 1]\<rparr> 5 = Inr vb \<and>
      Count xor_hash (snd (Merge
          \<lparr>cms_width = 3, cms_depth = 2, cms_counts = [[1, 0, 2], [2, 0, 1]],
            cms_hash_functions = [0, 1]\<rparr>
          \<lparr>cms_width = 3, cms_depth = 2, cms_counts = [[0, 0, 1], [1, 0, 0]],
            cms_hash_functions = [0, 1]\<rparr>)) 5 = Inr v' \<and>
      unat va + unat vb \<le> unat v')"
proof -
  let ?a = "\<lparr>cms_width = 3, cms_depth = 2, cms_counts = [[1, 0, 2], [2, 0, 1]],
          cms_hash_functions = [0, 1]\<rparr>"
  let ?b = "\<lparr>cms_width = 3, cms_depth = 2, cms_counts = [[0, 0, 1], [1, 0, 0]],
          cms_hash_functions = [0, 1]\<rparr>"
  have va: "valid ?a" by code_simp
  have vb: "valid ?b" by code_simp
  have w: "cms_width ?b = cms_width ?a" and d: "cms_depth ?b = cms_depth ?a"
    by simp_all
  have s: "selected xor_hash ?a 5 0 = 2" "selected xor_hash ?a 5 1 = 2"
    "selected xor_hash ?b 5 0 = 1" "selected xor_hash ?b 5 1 = 1"
    by code_simp+
  have b: "\<forall>r < unat (cms_depth ?a).
             unat (selected xor_hash ?a 5 r) + unat (selected xor_hash ?b 5 r) < 2 ^ 32 - 1"
  proof (intro allI impI)
    fix r assume "r < unat (cms_depth ?a)"
    then have "r = 0 \<or> r = 1" by (simp add: less_2_cases)
    then show "unat (selected xor_hash ?a 5 r) + unat (selected xor_hash ?b 5 r) < 2 ^ 32 - 1"
      using s by (elim disjE) simp_all
  qed
  note th = C2_merge_count_at_least_sum [OF va vb w d, of xor_hash 5]
  note th3 = mp [OF conjunct2 [OF conjunct2 [OF th]] b]
  from th3 obtain va' vb' v' where c: "Count xor_hash ?a 5 = Inr va'"
    "Count xor_hash ?b 5 = Inr vb'" "Count xor_hash (snd (Merge ?a ?b)) 5 = Inr v'"
    "unat va' + unat vb' \<le> unat v'"
    by (elim exE conjE) (rule that)
  have e: "\<exists>va vb v'. Count xor_hash ?a 5 = Inr va \<and> Count xor_hash ?b 5 = Inr vb \<and>
      Count xor_hash (snd (Merge ?a ?b)) 5 = Inr v' \<and> unat va + unat vb \<le> unat v'"
    by (intro exI conjI) (rule c)+
  have f: "fst (Merge ?a ?b) = None"
    using th by (rule conjunct1)
  show ?thesis
    by (intro conjI va vb f e)
qed

text \<open>
  Against C2 as stated, with both sketches of width 3 and depth 2 and the hashing
  instance \<open>xor_hash\<close>: the receiver has seen the key 2 once and the argument the key 6
  once, and \<open>Count\<close> of the key 1 is 0 in both; the key 1 shares its column with 2 in
  row 0 and with 6 in row 1, and after the merge \<open>Count\<close> of the key 1 is 1. And with
  both sketches of width 1 and depth 1, whatever the hashing: the receiver has seen the
  key 7 \<open>2^32 - 2\<close> times and the argument once, and after the merge \<open>Count\<close> of the
  key 7 is 0.
\<close>

theorem C2_counterexample:
  "fst (Insert xor_hash (CountMinSketch 3 2) 2) = None \<and>
   fst (Insert xor_hash (CountMinSketch 3 2) 6) = None \<and>
   Count xor_hash (snd (Insert xor_hash (CountMinSketch 3 2) 2)) 1 = Inr 0 \<and>
   Count xor_hash (snd (Insert xor_hash (CountMinSketch 3 2) 6)) 1 = Inr 0 \<and>
   fst (Merge (snd (Insert xor_hash (CountMinSketch 3 2) 2))
              (snd (Insert xor_hash (CountMinSketch 3 2) 6))) = None \<and>
   Count xor_hash (snd (Merge (snd (Insert xor_hash (CountMinSketch 3 2) 2))
                              (snd (Insert xor_hash (CountMinSketch 3 2) 6)))) 1 = Inr 1 \<and>
   fst (Insert_all xor_hash (CountMinSketch 1 1) (replicate 4294967294 7)) = None \<and>
   fst (Insert xor_hash (CountMinSketch 1 1) 7) = None \<and>
   Count xor_hash (snd (Insert_all xor_hash (CountMinSketch 1 1) (replicate 4294967294 7))) 7
     = Inr 4294967294 \<and>
   Count xor_hash (snd (Insert xor_hash (CountMinSketch 1 1) 7)) 7 = Inr 1 \<and>
   fst (Merge (snd (Insert_all xor_hash (CountMinSketch 1 1) (replicate 4294967294 7)))
              (snd (Insert xor_hash (CountMinSketch 1 1) 7))) = None \<and>
   Count xor_hash
     (snd (Merge (snd (Insert_all xor_hash (CountMinSketch 1 1) (replicate 4294967294 7)))
                 (snd (Insert xor_hash (CountMinSketch 1 1) 7)))) 7 = Inr 0"
proof -
  have a: "Insert xor_hash (CountMinSketch 3 2) 2 =
      (None, \<lparr>cms_width = 3, cms_depth = 2, cms_counts = [[1, 0, 0], [0, 0, 1]],
               cms_hash_functions = [0, 1]\<rparr>)"
    by code_simp
  have b: "Insert xor_hash (CountMinSketch 3 2) 6 =
      (None, \<lparr>cms_width = 3, cms_depth = 2, cms_counts = [[0, 0, 1], [0, 1, 0]],
               cms_hash_functions = [0, 1]\<rparr>)"
    by code_simp
  have m: "Merge \<lparr>cms_width = 3, cms_depth = 2, cms_counts = [[1, 0, 0], [0, 0, 1]],
               cms_hash_functions = [0, 1]\<rparr>
             \<lparr>cms_width = 3, cms_depth = 2, cms_counts = [[0, 0, 1], [0, 1, 0]],
               cms_hash_functions = [0, 1]\<rparr> =
      (None, \<lparr>cms_width = 3, cms_depth = 2, cms_counts = [[1, 0, 1], [0, 1, 1]],
               cms_hash_functions = [0, 1]\<rparr>)"
    by code_simp
  have c1: "Count xor_hash \<lparr>cms_width = 3, cms_depth = 2, cms_counts = [[1, 0, 0], [0, 0, 1]],
               cms_hash_functions = [0, 1]\<rparr> 1 = Inr 0"
    by code_simp
  have c2: "Count xor_hash \<lparr>cms_width = 3, cms_depth = 2, cms_counts = [[0, 0, 1], [0, 1, 0]],
               cms_hash_functions = [0, 1]\<rparr> 1 = Inr 0"
    by code_simp
  have c3: "Count xor_hash \<lparr>cms_width = 3, cms_depth = 2, cms_counts = [[1, 0, 1], [0, 1, 1]],
               cms_hash_functions = [0, 1]\<rparr> 1 = Inr 1"
    by code_simp
  have u: "Insert xor_hash (CountMinSketch 1 1) 7 = (None, unit_sketch 1)"
    by (simp add: CountMinSketch_unit Insert_unit)
  show ?thesis
    unfolding a b u
    by (simp add: m c1 c2 c3 CountMinSketch_unit Insert_all_unit Merge_unit Count_unit)
qed

subsection \<open>Claim C3\<close>

text \<open>
  C3. A merge between sketches that differ in width or in depth ends with the
  invalid-argument error, and the state of the receiver at that point is the state it had
  before the call: the check comes before the first write. The argument is a const
  reference, which the method has no way to write to.
\<close>

theorem C3_merge_mismatch_rejected:
  "cms_width s \<noteq> cms_width other \<or> cms_depth s \<noteq> cms_depth other \<Longrightarrow>
   Merge s other = (Some InvalidArgument, s)"
  by (simp add: Merge_def)

theorem C3_merge_mismatch_rejected_witness:
  "cms_width (CountMinSketch 10 3) = cms_width (CountMinSketch 10 4) \<and>
   cms_depth (CountMinSketch 10 3) \<noteq> cms_depth (CountMinSketch 10 4) \<and>
   Merge (CountMinSketch 10 3) (CountMinSketch 10 4) =
     (Some InvalidArgument, CountMinSketch 10 3)"
proof -
  have h: "cms_width (CountMinSketch 10 3) \<noteq> cms_width (CountMinSketch 10 4) \<or>
           cms_depth (CountMinSketch 10 3) \<noteq> cms_depth (CountMinSketch 10 4)"
    by (simp add: CountMinSketch_def)
  have "cms_width (CountMinSketch 10 3) = cms_width (CountMinSketch 10 4)"
    "cms_depth (CountMinSketch 10 3) \<noteq> cms_depth (CountMinSketch 10 4)"
    by (simp_all add: CountMinSketch_def)
  then show ?thesis
    using C3_merge_mismatch_rejected [OF h] by simp
qed

subsection \<open>Claim C4\<close>

text \<open>
  C4. On every well-formed sketch, \<open>Clear\<close> succeeds, and in the state it leaves
  \<open>Count\<close> returns 0 for every key.
\<close>

theorem C4_clear_resets:
  assumes "valid s"
  shows "fst (Clear s) = None \<and> (\<forall>item. Count H (snd (Clear s)) item = Inr 0)"
proof -
  note cl = Clear_valid [OF assms]
  have v: "valid (snd (Clear s))" using cl by (elim conjE)
  have sd: "same_dims s (snd (Clear s))" using cl by (elim conjE)
  have d: "cms_depth (snd (Clear s)) = cms_depth s" "cms_width (snd (Clear s)) = cms_width s"
    using sd by (simp_all add: same_dims_def)
  have z: "\<forall>r c. r < unat (cms_depth (snd (Clear s))) \<longrightarrow>
             c < unat (cms_width (snd (Clear s))) \<longrightarrow> cell (snd (Clear s)) r c = 0"
    unfolding d using cl by (elim conjE)
  have "Count H (snd (Clear s)) item = Inr 0" for item
    by (rule Count_all_zero [OF v z])
  then show ?thesis using cl by simp
qed

theorem C4_clear_resets_witness:
  "valid \<lparr>cms_width = 3, cms_depth = 2, cms_counts = [[1, 0, 2], [2, 0, 1]],
          cms_hash_functions = [0, 1]\<rparr> \<and>
   fst (Clear \<lparr>cms_width = 3, cms_depth = 2, cms_counts = [[1, 0, 2], [2, 0, 1]],
          cms_hash_functions = [0, 1]\<rparr>) = None \<and>
   Count xor_hash (snd (Clear \<lparr>cms_width = 3, cms_depth = 2,
          cms_counts = [[1, 0, 2], [2, 0, 1]], cms_hash_functions = [0, 1]\<rparr>)) 5 = Inr 0"
proof -
  have h: "valid \<lparr>cms_width = 3, cms_depth = 2, cms_counts = [[1, 0, 2], [2, 0, 1]],
          cms_hash_functions = [0, 1]\<rparr>"
    by code_simp
  show ?thesis
    using h C4_clear_resets [OF h, of xor_hash] by simp
qed

subsection \<open>Claim C5\<close>

text \<open>
  C5. On a well-formed sketch \<open>TopK\<close> has a result for every \<open>k\<close> and every list of
  candidates, and every result the library contracts allow is a list \<open>top\<close> with these
  properties, where \<open>all\<close> pairs each candidate, in order, with its \<open>Count\<close>: \<open>top\<close> has
  \<open>min(k, len(candidates))\<close> entries, its counts are in descending order, each of its
  entries is a candidate with its \<open>Count\<close>, it is a part of \<open>all\<close> as a multiset, and
  no entry of \<open>all\<close> left out of it has a larger count than one of its entries.
\<close>

theorem C5_topk:
  assumes "valid s"
  shows "(\<exists>top. TopK H s k candidates (Inr top)) \<and>
         (\<forall>res. TopK H s k candidates res \<longrightarrow>
            (\<exists>top all. res = Inr top \<and>
               map fst all = candidates \<and>
               (\<forall>p \<in> set all. Count H s (fst p) = Inr (snd p)) \<and>
               length top = min (unat k) (length candidates) \<and>
               sorted_wrt (\<lambda>a b. snd b \<le> snd a) top \<and>
               (\<forall>p \<in> set top. Count H s (fst p) = Inr (snd p)) \<and>
               mset top \<subseteq># mset all \<and>
               (\<forall>p \<in> set top. \<forall>q \<in># mset all - mset top. snd q \<le> snd p)))"
  by (intro conjI allI impI TopK_exists [OF assms] TopK_properties [OF assms])

theorem C5_topk_witness:
  "valid \<lparr>cms_width = 3, cms_depth = 2, cms_counts = [[1, 0, 2], [2, 0, 1]],
          cms_hash_functions = [0, 1]\<rparr> \<and>
   TopK xor_hash \<lparr>cms_width = 3, cms_depth = 2, cms_counts = [[1, 0, 2], [2, 0, 1]],
          cms_hash_functions = [0, 1]\<rparr> 1 [2, 5] (Inr [(5, 2)]) \<and>
   (\<exists>top all. (Inr [(5, 2)] :: error + (u64 \<times> u32) list) = Inr top \<and>
      map fst all = [2, 5] \<and>
      (\<forall>p \<in> set all.
         Count xor_hash \<lparr>cms_width = 3, cms_depth = 2, cms_counts = [[1, 0, 2], [2, 0, 1]],
           cms_hash_functions = [0, 1]\<rparr> (fst p) = Inr (snd p)) \<and>
      length top = min (unat (1 :: u16)) (length [2, 5 :: u64]) \<and>
      sorted_wrt (\<lambda>a b. snd b \<le> snd a) top \<and>
      (\<forall>p \<in> set top.
         Count xor_hash \<lparr>cms_width = 3, cms_depth = 2, cms_counts = [[1, 0, 2], [2, 0, 1]],
           cms_hash_functions = [0, 1]\<rparr> (fst p) = Inr (snd p)) \<and>
      mset top \<subseteq># mset all \<and>
      (\<forall>p \<in> set top. \<forall>q \<in># mset all - mset top. snd q \<le> snd p))"
proof -
  let ?s = "\<lparr>cms_width = 3, cms_depth = 2, cms_counts = [[1, 0, 2], [2, 0, 1]],
          cms_hash_functions = [0, 1]\<rparr>"
  have v: "valid ?s" by code_simp
  have c: "TopK_collect xor_hash ?s [2, 5] [] = Inr [(2, 1), (5, 2)]"
    by code_simp
  have ne: "\<not> unat (1 :: u16) \<ge> length [(2, 1), (5, 2) :: u64 \<times> u32]"
    by simp
  have nth: "std_nth_element by_count_desc (unat (1 :: u16))
               [(2, 1), (5, 2) :: u64 \<times> u32] [(5, 2), (2, 1)]"
    by (simp add: std_nth_element_def by_count_desc_def)
  have srt: "std_sort by_count_desc (take (unat (1 :: u16)) [(5, 2), (2, 1) :: u64 \<times> u32])
               [(5, 2)]"
    by (simp add: std_sort_def)
  have t: "TopK xor_hash ?s 1 [2, 5] (Inr [(5, 2)])"
    using c ne nth srt by (rule TopK_select)
  note th = C5_topk [OF v, of xor_hash 1 "[2, 5]"]
  note th2 = mp [OF spec [OF conjunct2 [OF th], of "Inr [(5, 2)]"] t]
  show ?thesis
    by (intro conjI v t th2)
qed

subsection \<open>Claim C6\<close>

text \<open>
  C6, amended. Take a well-formed sketch and a list of keys such that every counter plus
  the length of the list stays below \<open>2^32 - 1\<close>. Inserting the keys one after the other
  succeeds, and \<open>Count\<close> of any key afterwards is at least what it was before.
\<close>

theorem C6_monotone_below_sentinel:
  assumes "valid s"
    "\<forall>r c. r < unat (cms_depth s) \<longrightarrow> c < unat (cms_width s) \<longrightarrow>
       unat (cell s r c) + length items < 2 ^ 32 - 1"
  shows "fst (Insert_all H s items) = None \<and>
         (\<exists>v v'. Count H s item = Inr v \<and>
                 Count H (snd (Insert_all H s items)) item = Inr v' \<and> v \<le> v')"
proof -
  let ?s' = "snd (Insert_all H s items)"
  note ia = Insert_all_valid [OF assms(1), of H items]
  have ok: "fst (Insert_all H s items) = None" using ia by (rule conjunct1)
  have v': "valid ?s'" using ia by (elim conjE)
  have sd: "same_dims s ?s'" using ia by (elim conjE)
  have d: "cms_depth ?s' = cms_depth s" using sd by (simp add: same_dims_def)
  show ?thesis
  proof (cases "cms_depth s = 0")
    case True
    have "Count H s item = Inr 0"
      by (rule Count_depth_0 [OF assms(1) True])
    moreover have "Count H ?s' item = Inr 0"
      using Count_depth_0 [OF v'] d True by simp
    ultimately show ?thesis using ok by simp
  next
    case False
    have ne: "\<forall>r < unat (cms_depth s). selected H s item r \<noteq> - 1"
      using selected_after_inserts_unat(4) [OF assms(1) _ assms(2)] by simp
    have ne': "\<forall>r < unat (cms_depth ?s'). selected H ?s' item r \<noteq> - 1"
      unfolding d using selected_after_inserts_unat(3) [OF assms(1) _ assms(2)] by simp
    from Count_min [OF assms(1) False ne]
    obtain r1 where r1: "r1 < unat (cms_depth s)"
      "Count H s item = Inr (selected H s item r1)"
      "\<forall>r < unat (cms_depth s). selected H s item r1 \<le> selected H s item r"
      by auto
    from Count_min [OF v' _ ne'] False d
    obtain r0 where r0: "r0 < unat (cms_depth s)"
      "Count H ?s' item = Inr (selected H ?s' item r0)"
      by auto
    have "unat (selected H s item r1) \<le> unat (selected H s item r0)"
      using r1(3) r0(1) by (simp add: word_le_nat_alt)
    also have "\<dots> \<le> unat (selected H ?s' item r0)"
      by (rule selected_after_inserts_unat(1) [OF assms(1) r0(1) assms(2)])
    finally have "selected H s item r1 \<le> selected H ?s' item r0"
      by (simp add: word_le_nat_alt)
    then show ?thesis using ok r1(2) r0(2) by simp
  qed
qed

theorem C6_monotone_below_sentinel_witness:
  "valid (CountMinSketch 3 2) \<and>
   fst (Insert_all xor_hash (CountMinSketch 3 2) [5, 2, 5]) = None \<and>
   (\<exists>v v'. Count xor_hash (CountMinSketch 3 2) 5 = Inr v \<and>
       Count xor_hash (snd (Insert_all xor_hash (CountMinSketch 3 2) [5, 2, 5])) 5 = Inr v' \<and>
       v \<le> v')"
proof -
  have v: "valid (CountMinSketch 3 2)"
    by (rule valid_CountMinSketch) simp
  have b: "\<forall>r c. r < unat (cms_depth (CountMinSketch 3 2)) \<longrightarrow>
             c < unat (cms_width (CountMinSketch 3 2)) \<longrightarrow>
             unat (cell (CountMinSketch 3 2) r c) + length [5, 2, 5 :: u64] < 2 ^ 32 - 1"
    by (simp add: CountMinSketch_def cell_def)
  show ?thesis
    using v C6_monotone_below_sentinel [OF v b, of xor_hash 5] by simp
qed

text \<open>
  Against C6 as stated: after \<open>2^32 - 2\<close> insertions of the key 7 into a new sketch of
  width 1 and depth 1, \<open>Count\<close> of the key is \<open>2^32 - 2\<close>; one more insertion succeeds
  and \<open>Count\<close> of the key drops to 0, and after yet another one, when the counter has
  wrapped around, it is still 0.
\<close>

theorem C6_counterexample:
  "fst (Insert_all xor_hash (CountMinSketch 1 1) (replicate 4294967294 7)) = None \<and>
   Count xor_hash (snd (Insert_all xor_hash (CountMinSketch 1 1) (replicate 4294967294 7))) 7
     = Inr 4294967294 \<and>
   fst (Insert xor_hash
         (snd (Insert_all xor_hash (CountMinSketch 1 1) (replicate 4294967294 7))) 7) = None \<and>
   Count xor_hash (snd (Insert xor_hash
         (snd (Insert_all xor_hash (CountMinSketch 1 1) (replicate 4294967294 7))) 7)) 7
     = Inr 0 \<and>
   fst (Insert_all xor_hash (CountMinSketch 1 1) (replicate 4294967296 7)) = None \<and>
   Count xor_hash (snd (Insert_all xor_hash (CountMinSketch 1 1) (replicate 4294967296 7))) 7
     = Inr 0"
  by (simp add: CountMinSketch_unit Insert_all_unit Insert_unit Count_unit)

subsection \<open>Claim C7\<close>

text \<open>
  C7, amended. On a well-formed sketch \<open>Insert\<close>, \<open>Clear\<close> and \<open>Merge\<close> with a
  well-formed sketch of the same dimensions succeed and leave \<open>width_\<close>, \<open>depth_\<close>, the
  hash family and the shape of the counter matrix as they were; \<open>Count\<close> and \<open>TopK\<close>
  return no new state. \<open>Insert\<close> leaves a counter unchanged or adds 1 to it modulo
  \<open>2^32\<close>, so the counter does not decrease unless it held \<open>2^32 - 1\<close>. \<open>Merge\<close> adds
  the argument's counter modulo \<open>2^32\<close>, so the counter does not decrease unless the sum
  reaches \<open>2^32\<close>. \<open>Clear\<close> sets every counter to 0. A \<open>Merge\<close> rejected for its
  dimensions leaves the state as it was.
\<close>

theorem C7_dimensions_and_counters:
  assumes "valid s"
  shows "(fst (Insert H s item) = None \<and> same_dims s (snd (Insert H s item)) \<and>
          (\<forall>r c. r < unat (cms_depth s) \<longrightarrow> c < unat (cms_width s) \<longrightarrow>
             (cell (snd (Insert H s item)) r c = cell s r c \<or>
              cell (snd (Insert H s item)) r c = cell s r c + 1) \<and>
             (cell s r c \<noteq> - 1 \<longrightarrow> cell s r c \<le> cell (snd (Insert H s item)) r c))) \<and>
         (fst (Clear s) = None \<and> same_dims s (snd (Clear s)) \<and>
          (\<forall>r c. r < unat (cms_depth s) \<longrightarrow> c < unat (cms_width s) \<longrightarrow>
             cell (snd (Clear s)) r c = 0)) \<and>
         (valid other \<and> cms_width other = cms_width s \<and> cms_depth other = cms_depth s \<longrightarrow>
          fst (Merge s other) = None \<and> same_dims s (snd (Merge s other)) \<and>
          (\<forall>r c. r < unat (cms_depth s) \<longrightarrow> c < unat (cms_width s) \<longrightarrow>
             cell (snd (Merge s other)) r c = cell s r c + cell other r c \<and>
             (unat (cell s r c) + unat (cell other r c) < 2 ^ 32 \<longrightarrow>
                cell s r c \<le> cell (snd (Merge s other)) r c))) \<and>
         (cms_width other \<noteq> cms_width s \<or> cms_depth other \<noteq> cms_depth s \<longrightarrow>
          snd (Merge s other) = s)"
proof -
  note ins = Insert_valid [OF assms, of H item]
  have i1: "fst (Insert H s item) = None" using ins by (rule conjunct1)
  have i2: "same_dims s (snd (Insert H s item))" using ins by (elim conjE)
  have i3: "cell (snd (Insert H s item)) r c =
      cell s r c + (if c = unat (column H (cms_width s) r item) then 1 else 0)"
    if "r < unat (cms_depth s)" "c < unat (cms_width s)" for r c
    using ins that by (elim conjE) simp
  have i4: "(cell (snd (Insert H s item)) r c = cell s r c \<or>
             cell (snd (Insert H s item)) r c = cell s r c + 1) \<and>
            (cell s r c \<noteq> - 1 \<longrightarrow> cell s r c \<le> cell (snd (Insert H s item)) r c)"
    if "r < unat (cms_depth s)" "c < unat (cms_width s)" for r c
  proof (intro conjI impI)
    show "cell (snd (Insert H s item)) r c = cell s r c \<or>
          cell (snd (Insert H s item)) r c = cell s r c + 1"
      using i3 [OF that] by simp
    show "cell s r c \<le> cell (snd (Insert H s item)) r c" if "cell s r c \<noteq> - 1"
      using i3 [OF \<open>r < unat (cms_depth s)\<close> \<open>c < unat (cms_width s)\<close>]
        le_plus_1_u32 [OF that]
      by (cases "c = unat (column H (cms_width s) r item)") simp_all
  qed
  note clr = Clear_valid [OF assms]
  have c1: "fst (Clear s) = None" using clr by (rule conjunct1)
  have c2: "same_dims s (snd (Clear s))" using clr by (elim conjE)
  have c3: "cell (snd (Clear s)) r c = 0"
    if "r < unat (cms_depth s)" "c < unat (cms_width s)" for r c
    using clr that by (elim conjE) simp
  have m: "fst (Merge s other) = None \<and> same_dims s (snd (Merge s other)) \<and>
          (\<forall>r c. r < unat (cms_depth s) \<longrightarrow> c < unat (cms_width s) \<longrightarrow>
             cell (snd (Merge s other)) r c = cell s r c + cell other r c \<and>
             (unat (cell s r c) + unat (cell other r c) < 2 ^ 32 \<longrightarrow>
                cell s r c \<le> cell (snd (Merge s other)) r c))"
    if o: "valid other" "cms_width other = cms_width s" "cms_depth other = cms_depth s"
  proof -
    note mg = Merge_valid [OF assms o]
    have m1: "fst (Merge s other) = None" using mg by (rule conjunct1)
    have m2: "same_dims s (snd (Merge s other))" using mg by (elim conjE)
    have m3: "cell (snd (Merge s other)) r c = cell s r c + cell other r c"
      if "r < unat (cms_depth s)" "c < unat (cms_width s)" for r c
      using mg that by (elim conjE) simp
    have m4: "cell s r c \<le> cell (snd (Merge s other)) r c"
      if "r < unat (cms_depth s)" "c < unat (cms_width s)"
        "unat (cell s r c) + unat (cell other r c) < 2 ^ 32" for r c
    proof -
      have "unat (cell s r c) + unat (cell other r c) < 2 ^ LENGTH(32)"
        using that(3) by simp
      then have "cell s r c \<le> cell s r c + cell other r c"
        by (simp only: no_olen_add_nat)
      then show ?thesis by (simp only: m3 [OF that(1,2)])
    qed
    have "cell (snd (Merge s other)) r c = cell s r c + cell other r c \<and>
             (unat (cell s r c) + unat (cell other r c) < 2 ^ 32 \<longrightarrow>
                cell s r c \<le> cell (snd (Merge s other)) r c)"
      if "r < unat (cms_depth s)" "c < unat (cms_width s)" for r c
      by (intro conjI impI m3 m4 that)
    then have "\<forall>r c. r < unat (cms_depth s) \<longrightarrow> c < unat (cms_width s) \<longrightarrow>
             cell (snd (Merge s other)) r c = cell s r c + cell other r c \<and>
             (unat (cell s r c) + unat (cell other r c) < 2 ^ 32 \<longrightarrow>
                cell s r c \<le> cell (snd (Merge s other)) r c)"
      by (intro allI impI)
    then show ?thesis by (intro conjI m1 m2)
  qed
  have mm: "snd (Merge s other) = s"
    if "cms_width other \<noteq> cms_width s \<or> cms_depth other \<noteq> cms_depth s"
    using that by (auto simp: Merge_def)
  have I: "fst (Insert H s item) = None \<and> same_dims s (snd (Insert H s item)) \<and>
          (\<forall>r c. r < unat (cms_depth s) \<longrightarrow> c < unat (cms_width s) \<longrightarrow>
             (cell (snd (Insert H s item)) r c = cell s r c \<or>
              cell (snd (Insert H s item)) r c = cell s r c + 1) \<and>
             (cell s r c \<noteq> - 1 \<longrightarrow> cell s r c \<le> cell (snd (Insert H s item)) r c))"
    by (intro conjI allI impI i1 i2 i4)
  have C: "fst (Clear s) = None \<and> same_dims s (snd (Clear s)) \<and>
          (\<forall>r c. r < unat (cms_depth s) \<longrightarrow> c < unat (cms_width s) \<longrightarrow>
             cell (snd (Clear s)) r c = 0)"
    by (intro conjI allI impI c1 c2 c3)
  have M: "valid other \<and> cms_width other = cms_width s \<and> cms_depth other = cms_depth s \<longrightarrow>
          fst (Merge s other) = None \<and> same_dims s (snd (Merge s other)) \<and>
          (\<forall>r c. r < unat (cms_depth s) \<longrightarrow> c < unat (cms_width s) \<longrightarrow>
             cell (snd (Merge s other)) r c = cell s r c + cell other r c \<and>
             (unat (cell s r c) + unat (cell other r c) < 2 ^ 32 \<longrightarrow>
                cell s r c \<le> cell (snd (Merge s other)) r c))"
    using m by (intro impI) (elim conjE)
  have MM: "cms_width other \<noteq> cms_width s \<or> cms_depth other \<noteq> cms_depth s \<longrightarrow>
          snd (Merge s other) = s"
    using mm by (intro impI)
  show ?thesis
    by (rule conjI [OF I conjI [OF C conjI [OF M MM]]])
qed

theorem C7_dimensions_and_counters_witness:
  "valid \<lparr>cms_width = 3, cms_depth = 2, cms_counts = [[1, 0, 2], [2, 0, 1]],
          cms_hash_functions = [0, 1]\<rparr> \<and>
   valid \<lparr>cms_width = 3, cms_depth = 2, cms_counts = [[0, 0, 1], [1, 0, 0]],
          cms_hash_functions = [0, 1]\<rparr> \<and>
   fst (Insert xor_hash \<lparr>cms_width = 3, cms_depth = 2, cms_counts = [[1, 0, 2], [2, 0, 1]],
          cms_hash_functions = [0, 1]\<rparr> 5) = None \<and>
   fst (Clear \<lparr>cms_width = 3, cms_depth = 2, cms_counts = [[1, 0, 2], [2, 0, 1]],
          cms_hash_functions = [0, 1]\<rparr>) = None \<and>
   fst (Merge \<lparr>cms_width = 3, cms_depth = 2, cms_counts = [[1, 0, 2], [2, 0, 1]],
          cms_hash_functions = [0, 1]\<rparr>
        \<lparr>cms_width = 3, cms_depth = 2, cms_counts = [[0, 0, 1], [1, 0, 0]],
          cms_hash_functions = [0, 1]\<rparr>) = None \<and>
   same_dims \<lparr>cms_width = 3, cms_depth = 2, cms_counts = [[1, 0, 2], [2, 0, 1]],
          cms_hash_functions = [0, 1]\<rparr>
     (snd (Merge \<lparr>cms_width = 3, cms_depth = 2, cms_counts = [[1, 0, 2], [2, 0, 1]],
          cms_hash_functions = [0, 1]\<rparr>
        \<lparr>cms_width = 3, cms_depth = 2, cms_counts = [[0, 0, 1], [1, 0, 0]],
          cms_hash_functions = [0, 1]\<rparr>))"
proof -
  let ?s = "\<lparr>cms_width = 3, cms_depth = 2, cms_counts = [[1, 0, 2], [2, 0, 1]],
          cms_hash_functions = [0, 1]\<rparr>"
  let ?o = "\<lparr>cms_width = 3, cms_depth = 2, cms_counts = [[0, 0, 1], [1, 0, 0]],
          cms_hash_functions = [0, 1]\<rparr>"
  have v: "valid ?s" by code_simp
  have vo: "valid ?o" by code_simp
  show ?thesis
    using v vo C7_dimensions_and_counters [OF v, of xor_hash 5 ?o] by simp
qed

text \<open>
  Against C7 as stated: after \<open>2^32 - 1\<close> insertions of the key 7 into a new sketch of
  width 1 and depth 1 the only counter holds \<open>2^32 - 1\<close>, and one more \<open>Insert\<close>
  succeeds and takes it to 0.
\<close>

theorem C7_counterexample:
  "fst (Insert_all xor_hash (CountMinSketch 1 1) (replicate 4294967295 7)) = None \<and>
   cell (snd (Insert_all xor_hash (CountMinSketch 1 1) (replicate 4294967295 7))) 0 0
     = 4294967295 \<and>
   fst (Insert xor_hash
         (snd (Insert_all xor_hash (CountMinSketch 1 1) (replicate 4294967295 7))) 7) = None \<and>
   cell (snd (Insert xor_hash
         (snd (Insert_all xor_hash (CountMinSketch 1 1) (replicate 4294967295 7))) 7)) 0 0
     = 0"
  by (simp add: CountMinSketch_unit Insert_all_unit Insert_unit cell_unit)

subsection \<open>Claim C8\<close>

text \<open>
  C8. After move construction from a sketch with \<open>depth_ > 0\<close> the new object holds the
  counter matrix of the source and an empty \<open>hash_functions_\<close>; \<open>Insert\<close> and \<open>Count\<close>
  on it index that empty vector at row 0, past its end.
\<close>

theorem C8_move_defect:
  assumes "cms_depth s \<noteq> 0"
  shows "cms_counts (fst (move_construct s)) = cms_counts s \<and>
         cms_depth (fst (move_construct s)) = cms_depth s \<and>
         cms_hash_functions (fst (move_construct s)) = [] \<and>
         Insert H (fst (move_construct s)) item = (Some OutOfRange, fst (move_construct s)) \<and>
         Count H (fst (move_construct s)) item = Inl OutOfRange"
proof -
  have "0 < unat (cms_depth s)" using assms by (simp add: unat_gt_0)
  then have rows: "[0..<unat (cms_depth s)] = 0 # [1..<unat (cms_depth s)]"
    by (simp add: upt_conv_Cons)
  show ?thesis
    by (simp add: move_construct_def Insert_def Count_def rows hash_call_def)
qed

theorem C8_move_defect_witness:
  "cms_depth (CountMinSketch 3 2) \<noteq> 0 \<and>
   cms_hash_functions (fst (move_construct (CountMinSketch 3 2))) = [] \<and>
   Insert xor_hash (fst (move_construct (CountMinSketch 3 2))) 5 =
     (Some OutOfRange, fst (move_construct (CountMinSketch 3 2))) \<and>
   Count xor_hash (fst (move_construct (CountMinSketch 3 2))) 5 = Inl OutOfRange"
proof -
  have h: "cms_depth (CountMinSketch 3 2) \<noteq> 0"
    by (simp add: CountMinSketch_def)
  show ?thesis
    using h C8_move_defect [OF h, of xor_hash 5] by simp
qed

subsection \<open>Claim C9\<close>

text \<open>
  C9. A counter is a 32-bit word. After \<open>n\<close> insertions of one key into a new sketch with
  at least one row and one column, all of which succeed, the counter that each row
  selects for the key holds \<open>n mod 2^32\<close>. After \<open>2^32\<close> insertions these counters
  are 0 again and \<open>Count\<close> of the key returns 0, which is less than the number of
  insertions.
\<close>

theorem C9_counters_wrap:
  assumes "width \<noteq> 0" "depth \<noteq> 0"
  shows "fst (Insert_all H (CountMinSketch width depth) (replicate n item)) = None \<and>
         (\<forall>r < unat depth.
            unat (selected H (snd (Insert_all H (CountMinSketch width depth)
                                    (replicate n item))) item r) = n mod 2 ^ 32) \<and>
         Count H (snd (Insert_all H (CountMinSketch width depth)
                        (replicate (2 ^ 32) item))) item = Inr 0 \<and>
         (\<exists>v. Count H (snd (Insert_all H (CountMinSketch width depth)
                             (replicate (2 ^ 32) item))) item = Inr v \<and>
              unat v < count_list (replicate (2 ^ 32) item) item)"
proof -
  let ?s = "CountMinSketch width depth"
  let ?t = "\<lambda>n. snd (Insert_all H ?s (replicate n item))"
  have v: "valid ?s" using assms(1) by (simp add: valid_CountMinSketch)
  have d: "cms_depth ?s = depth" by (simp add: CountMinSketch_def)
  note ia = Insert_all_valid [OF v, of H]
  have ok: "fst (Insert_all H ?s (replicate n item)) = None"
    using ia [of "replicate n item"] by (rule conjunct1)
  have sel: "unat (selected H (?t n) item r) = n mod 2 ^ 32" if "r < unat depth" for r
    by (simp add: selected_after_same_key [OF assms(1) that] unat_of_nat)
  have v2: "valid (?t (2 ^ 32))"
    using ia [of "replicate (2 ^ 32) item"] by (elim conjE)
  have sd: "same_dims ?s (?t (2 ^ 32))"
    using ia [of "replicate (2 ^ 32) item"] by (elim conjE)
  have d2: "cms_depth (?t (2 ^ 32)) = depth"
    using sd d by (simp add: same_dims_def)
  have "\<forall>r < unat (cms_depth (?t (2 ^ 32))). selected H (?t (2 ^ 32)) item r = 0"
    unfolding d2 by (simp add: selected_after_same_key [OF assms(1)])
  then have "Count H (?t (2 ^ 32)) item = Inr 0"
    by (rule Count_selected_zero [OF v2])
  then show ?thesis
    using ok sel by (simp add: count_list_replicate_same)
qed

theorem C9_counters_wrap_witness:
  "(3 :: u32) \<noteq> 0 \<and> (2 :: u32) \<noteq> 0 \<and>
   unat (selected xor_hash (snd (Insert_all xor_hash (CountMinSketch 3 2)
                                  (replicate 4294967297 5))) 5 0) = 1 \<and>
   Count xor_hash (snd (Insert_all xor_hash (CountMinSketch 3 2)
                         (replicate (2 ^ 32) 5))) 5 = Inr 0"
proof -
  have w: "(3 :: u32) \<noteq> 0" and d: "(2 :: u32) \<noteq> 0"
    by simp_all
  show ?thesis
    using C9_counters_wrap [OF w d, of xor_hash 4294967297 5] by simp
qed

subsection \<open>Claim C10\<close>

text \<open>
  C10, amended. \<open>min_cell\<close> is the least of the counters that the rows select for the key.
  On a well-formed sketch with at least one row, \<open>Count\<close> returns 0 when that minimum is
  \<open>2^32 - 1\<close>, the value the running minimum starts from, and returns the minimum
  otherwise. \<open>Count\<close> returns 0 exactly when the sketch has no row or the minimum is
  \<open>2^32 - 1\<close> or the minimum is 0.
\<close>

theorem C10_sentinel:
  assumes "valid s"
  shows "(cms_depth s \<noteq> 0 \<and> min_cell H s item = - 1 \<longrightarrow> Count H s item = Inr 0) \<and>
         (cms_depth s \<noteq> 0 \<and> min_cell H s item \<noteq> - 1 \<longrightarrow>
            Count H s item = Inr (min_cell H s item)) \<and>
         (Count H s item = Inr 0 \<longleftrightarrow>
            cms_depth s = 0 \<or> min_cell H s item = - 1 \<or> min_cell H s item = 0)"
proof (cases "cms_depth s = 0")
  case True
  then show ?thesis
    by (simp add: Count_depth_0 [OF assms])
next
  case False
  have "Count H s item = Inr (if min_cell H s item = - 1 then 0 else min_cell H s item)"
    by (simp add: Count_valid [OF assms] min_selected_min_cell [OF False])
  then show ?thesis
    using False by auto
qed

theorem C10_sentinel_witness:
  "valid \<lparr>cms_width = 1, cms_depth = 2, cms_counts = [[4294967295], [4294967295]],
          cms_hash_functions = [0, 1]\<rparr> \<and>
   min_cell xor_hash \<lparr>cms_width = 1, cms_depth = 2,
          cms_counts = [[4294967295], [4294967295]], cms_hash_functions = [0, 1]\<rparr> 7 = - 1 \<and>
   Count xor_hash \<lparr>cms_width = 1, cms_depth = 2,
          cms_counts = [[4294967295], [4294967295]], cms_hash_functions = [0, 1]\<rparr> 7 = Inr 0"
proof -
  let ?s = "\<lparr>cms_width = 1, cms_depth = 2, cms_counts = [[4294967295], [4294967295]],
          cms_hash_functions = [0, 1]\<rparr>"
  have v: "valid ?s"
    by code_simp
  have d: "cms_depth ?s \<noteq> 0"
    by simp
  have m: "min_cell xor_hash ?s 7 = - 1"
    by code_simp
  show ?thesis
    using v d m C10_sentinel [OF v, of xor_hash 7] by simp
qed

text \<open>
  Against C10 as stated: on a new sketch of width 10 and depth 3, \<open>Count\<close> of the key 7
  returns 0, although the sketch has rows and the least selected counter is 0, not
  \<open>2^32 - 1\<close>.
\<close>

theorem C10_counterexample:
  "Count xor_hash (CountMinSketch 10 3) 7 = Inr 0 \<and>
   cms_depth (CountMinSketch 10 3) \<noteq> 0 \<and>
   min_cell xor_hash (CountMinSketch 10 3) 7 = 0 \<and>
   min_cell xor_hash (CountMinSketch 10 3) 7 \<noteq> - 1"
proof -
  have c: "Count xor_hash (CountMinSketch 10 3) 7 = Inr 0"
    by code_simp
  have m: "min_cell xor_hash (CountMinSketch 10 3) 7 = 0"
    by code_simp
  show ?thesis
    using c m by (simp add: CountMinSketch_def)
qed

end
